theory Spec2Isabelle
  imports Complex_Main
begin

section \<open>Data model\<close>

text \<open>
  The scripts read a CSV table with the columns \<open>timestamp\<close>, \<open>metric_name\<close> and
  \<open>metric_value\<close>. Timestamps and metric values are floating-point numbers in the
  source; they are modelled as exact reals, so rounding is not part of the model,
  except in the Binned method of the RPS CDF, whose arithmetic is modelled in IEEE-754
  double precision (section \<open>Double-precision arithmetic\<close>).
  A NaN cell of a pandas series is \<open>None\<close>.
\<close>

record row =
  timestamp :: real
  metric_name :: string
  metric_value :: real

type_synonym table = "row list"

text \<open>\<open>df[df['metric_name'] == name]\<close>\<close>

definition filter_metric :: "string \<Rightarrow> table \<Rightarrow> table" where
  "filter_metric name df = filter (\<lambda>r. metric_name r = name) df"

text \<open>Exceptions raised by the numeric library calls.\<close>

datatype error = ValueError | ZeroDivisionError | LinAlgError

section \<open>Order statistics\<close>

text \<open>
  \<open>np.percentile(a, q)\<close> with the default linear method, and pandas'
  \<open>Series.quantile(q)\<close>: the data is sorted, the virtual index is \<open>h = q' * (n - 1)\<close>
  with \<open>q'\<close> the fraction, and the result interpolates linearly between the ranks
  \<open>floor h\<close> and \<open>floor h + 1\<close> (clipped to the last rank). On an empty input both
  return NaN.
\<close>

definition lerp_rank :: "real list \<Rightarrow> real \<Rightarrow> real" where
  "lerp_rank s h =
     (let lo = nat \<lfloor>h\<rfloor>;
          hi = min (lo + 1) (length s - 1);
          t = h - real lo
      in s ! lo + (s ! hi - s ! lo) * t)"

definition quantile :: "real list \<Rightarrow> real \<Rightarrow> real option" where
  "quantile a q =
     (if a = [] then None
      else Some (lerp_rank (sort a) (q * real (length a - 1))))"

definition percentile :: "real list \<Rightarrow> real \<Rightarrow> real option" where
  "percentile a q = quantile a (q / 100)"

section \<open>Latency smoothing\<close>

subsection \<open>Rolling average\<close>

text \<open>
  \<open>series.rolling(window=w, center=True).mean()\<close>. For row \<open>i\<close> pandas' fixed window
  covers the rows \<open>[i + 1 + offset - w, i + 1 + offset)\<close> with
  \<open>offset = (w - 1) // 2\<close>, both bounds clipped to \<open>[0, n]\<close>; \<open>min_periods\<close>
  defaults to \<open>w\<close>, and the mean of a window with fewer observations (or with none) is NaN.
  The subtraction on \<open>nat\<close> is the clipping of the lower bound at 0.
\<close>

definition window_slice :: "nat \<Rightarrow> real list \<Rightarrow> nat \<Rightarrow> real list" where
  "window_slice w xs i =
     (let offset = (w - 1) div 2;
          e = min (i + 1 + offset) (length xs);
          s = min (i + 1 + offset - w) (length xs)
      in take (e - s) (drop s xs))"

definition mean :: "real list \<Rightarrow> real" where
  "mean xs = sum_list xs / real (length xs)"

definition rolling_mean :: "nat \<Rightarrow> real list \<Rightarrow> real option list" where
  "rolling_mean w xs =
     map (\<lambda>i. let win = window_slice w xs i
              in if w \<le> length win \<and> 0 < length win then Some (mean win) else None)
         [0..<length xs]"

text \<open>The defined (non-NaN) points of a series, with their row positions.\<close>

definition defined_points :: "real option list \<Rightarrow> (nat \<times> real) list" where
  "defined_points ys =
     map (\<lambda>i. (i, the (ys ! i))) (filter (\<lambda>i. ys ! i \<noteq> None) [0..<length ys])"

subsection \<open>Bucketed resample\<close>

text \<open>
  \<open>df.resample(freq)['metric_value'].agg(['mean', 'std', 'count'])\<close> on the frame
  indexed by timestamp. The frequency is a positive width \<open>d\<close> in seconds. Buckets are
  the intervals \<open>[origin + k * d, origin + (k + 1) * d)\<close>, anchored at midnight of the
  first sample's day; every bucket from the first sample's to the last sample's is a
  row of the result, also the empty ones (count 0, mean and std NaN). The std is the
  sample standard deviation, NaN below two samples. Then
  \<open>resampled[resampled['count'] >= 3]\<close> keeps the rows with at least three samples.
\<close>

record bucket =
  relative_time :: real
  bucket_mean :: "real option"
  bucket_std :: "real option"
  bucket_count :: nat

definition bucket_index :: "real \<Rightarrow> real \<Rightarrow> real \<Rightarrow> int" where
  "bucket_index origin d t = \<lfloor>(t - origin) / d\<rfloor>"

definition sample_std :: "real list \<Rightarrow> real" where
  "sample_std xs = sqrt (sum_list (map (\<lambda>x. (x - mean xs)\<^sup>2) xs) / real (length xs - 1))"

definition make_bucket :: "real \<Rightarrow> real \<Rightarrow> real \<Rightarrow> (real \<times> real) list \<Rightarrow> int \<Rightarrow> bucket" where
  "make_bucket origin d start_time samples k =
     (let vs = map snd (filter (\<lambda>(t, v). bucket_index origin d t = k) samples)
      in \<lparr> relative_time = origin + real_of_int k * d - start_time,
           bucket_mean = (if vs = [] then None else Some (mean vs)),
           bucket_std = (if length vs < 2 then None else Some (sample_std vs)),
           bucket_count = length vs \<rparr>)"

definition resample :: "real \<Rightarrow> (real \<times> real) list \<Rightarrow> bucket list" where
  "resample d samples =
     (if samples = [] then []
      else
        let ts = map fst samples;
            start_time = Min (set ts);
            origin = 86400 * real_of_int \<lfloor>start_time / 86400\<rfloor>;
            k0 = bucket_index origin d start_time;
            k1 = bucket_index origin d (Max (set ts))
        in map (make_bucket origin d start_time samples) [k0..k1])"

definition resample_method :: "real \<Rightarrow> (real \<times> real) list \<Rightarrow> bucket list" where
  "resample_method d samples = filter (\<lambda>b. 3 \<le> bucket_count b) (resample d samples)"

subsection \<open>Local polynomial (Savitzky-Golay) filter\<close>

text \<open>
  \<open>scipy.signal.savgol_filter(x, window_length, polyorder=3)\<close> with the default mode
  \<open>'interp'\<close>, for the odd window lengths the script passes. In the interior the output at
  row \<open>i\<close> is the value, at the window's center, of the least-squares cubic fitted to the
  \<open>window_length\<close> samples centered at \<open>i\<close>; the first and the last \<open>window_length // 2\<close>
  outputs are the values of the cubic fitted to the first, respectively last,
  \<open>window_length\<close> samples. The filter raises \<open>ValueError\<close> when \<open>polyorder\<close> is not less
  than \<open>window_length\<close> and when \<open>window_length\<close> exceeds the size of \<open>x\<close>.

  The least-squares cubic over the \<open>2m + 1\<close> positions \<open>-m, ..., m\<close> is written in the
  basis of the polynomials \<open>1\<close>, \<open>t\<close>, \<open>t\<^sup>2 - S\<^sub>2/S\<^sub>0\<close>, \<open>t\<^sup>3 - (S\<^sub>4/S\<^sub>2) t\<close>, which are
  orthogonal on these positions (\<open>S\<^sub>k\<close> is the sum of the \<open>k\<close>-th powers of the positions):
  the fitted cubic is the sum of the projections of the data on them.
\<close>

definition positions :: "nat \<Rightarrow> real list" where
  "positions m = map real_of_int [- int m..int m]"

definition power_sum :: "nat \<Rightarrow> nat \<Rightarrow> real" where
  "power_sum m k = sum_list (map (\<lambda>t. t ^ k) (positions m))"

definition basis :: "nat \<Rightarrow> nat \<Rightarrow> real \<Rightarrow> real" where
  "basis m k t =
     (if k = 0 then 1
      else if k = 1 then t
      else if k = 2 then t\<^sup>2 - power_sum m 2 / power_sum m 0
      else t ^ 3 - power_sum m 4 / power_sum m 2 * t)"

definition dot :: "real list \<Rightarrow> real list \<Rightarrow> real" where
  "dot xs ys = sum_list (map2 (*) xs ys)"

definition polyfit3 :: "real list \<Rightarrow> real \<Rightarrow> real" where
  "polyfit3 ys t =
     (let m = length ys div 2
      in sum_list (map (\<lambda>k. dot ys (map (basis m k) (positions m))
                               / dot (map (basis m k) (positions m)) (map (basis m k) (positions m))
                               * basis m k t) [0..<4]))"

definition savgol_filter :: "real list \<Rightarrow> int \<Rightarrow> error + real list" where
  "savgol_filter x window_length =
     (if window_length \<le> 3 \<or> int (length x) < window_length \<or> even window_length
      then Inl ValueError
      else
        let n = length x; wl = nat window_length; m = wl div 2
        in Inr (map (\<lambda>i. if i < m then polyfit3 (take wl x) (real i - real m)
                          else if n - m \<le> i then polyfit3 (drop (n - wl) x) (real (i - (n - wl)) - real m)
                          else polyfit3 (take wl (drop (i - m) x)) 0)
                    [0..<n]))"

text \<open>
  The \<open>savgol\<close> branch of \<open>plot_request_times_smooth\<close>: the filter when the series is
  longer than \<open>window_size\<close> (an even size is incremented), else the rolling average with
  the window \<open>min(10, len // 2)\<close>.
\<close>

definition savgol_method :: "int \<Rightarrow> real list \<Rightarrow> error + real option list" where
  "savgol_method window_size xs =
     (if window_size < int (length xs)
      then (case savgol_filter xs (if window_size mod 2 = 1 then window_size else window_size + 1) of
              Inl e \<Rightarrow> Inl e
            | Inr ys \<Rightarrow> Inr (map Some ys))
      else Inr (rolling_mean (min 10 (length xs div 2)) xs))"

section \<open>RPS CDF smoothing\<close>

text \<open>
  The per-second count series: each timestamp is floored to its second and the rows
  are grouped by second (\<open>groupby('second').size()\<close>), so a second without a request
  has no entry.
\<close>

definition per_second_counts :: "real list \<Rightarrow> nat list" where
  "per_second_counts ts =
     (let secs = map floor ts
      in map (\<lambda>s. count_list secs s) (sort (remdups secs)))"

text \<open>\<open>np.arange(1, n + 1) / n\<close>\<close>

definition cumulative :: "nat \<Rightarrow> real list" where
  "cumulative n = map (\<lambda>i. real i / real n) [1..<n + 1]"

text \<open>
  \<open>np.unique(ar, return_index=True)\<close>: the sorted distinct values of \<open>ar\<close>, and for each
  the index of its first occurrence in \<open>ar\<close>.
\<close>

fun first_index :: "'a list \<Rightarrow> 'a \<Rightarrow> nat" where
  "first_index [] c = 0"
| "first_index (x # xs) c = (if x = c then 0 else Suc (first_index xs c))"

definition np_unique :: "nat list \<Rightarrow> nat list \<times> nat list" where
  "np_unique ar = (let u = remdups_adj (sort ar) in (u, map (first_index ar) u))"

text \<open>
  The deduplicated points of \<open>plot_rps_cdf_smooth\<close>:
  \<open>unique_rps, unique_indices = np.unique(sorted_rps, return_index=True)\<close> and
  \<open>unique_cumulative = cumulative[unique_indices]\<close>.
\<close>

definition unique_points :: "nat list \<Rightarrow> (real \<times> real) list" where
  "unique_points rps =
     (let sorted_rps = sort rps;
          (unique_rps, unique_indices) = np_unique sorted_rps
      in zip (map real unique_rps) (map (\<lambda>i. cumulative (length sorted_rps) ! i) unique_indices))"

text \<open>\<open>np.linspace(a, b, num)\<close> with the end point included.\<close>

definition linspace :: "real \<Rightarrow> real \<Rightarrow> nat \<Rightarrow> real list" where
  "linspace a b num =
     (if num = 1 then [a]
      else map (\<lambda>i. a + real i * ((b - a) / real (num - 1))) [0..<num])"

subsection \<open>Interpolate method\<close>

text \<open>
  \<open>interp1d(x, y, kind='cubic', bounds_error=False, fill_value=(0, 1))\<close> builds the
  interpolating cubic spline of \<open>make_interp_spline(x, y, k=3)\<close>, whose default boundary
  condition is not-a-knot: the knots are \<open>x[2], ..., x[n-3]\<close>, so the spline is one cubic
  on \<open>[x[0], x[2]]\<close> and one on \<open>[x[n-3], x[n-1]]\<close> and twice continuously differentiable.
  These splines are the combinations of \<open>1\<close>, \<open>(t - x[0])\<close>, \<open>(t - x[0])\<^sup>2\<close>, \<open>(t - x[0])\<^sup>3\<close>
  and the truncated cubes \<open>max(t - x[j], 0)\<^sup>3\<close> for the knots \<open>x[j]\<close>; the coefficients solve
  the \<open>n\<close> interpolation equations, here by Gaussian elimination (a singular system is
  \<open>LinAlgError\<close>). Below \<open>x[0]\<close> the interpolant returns the fill value 0, above \<open>x[n-1]\<close>
  the fill value 1.
\<close>

fun find_pivot :: "real list list \<Rightarrow> (real list \<times> real list list) option" where
  "find_pivot [] = None"
| "find_pivot ([] # rs) = None"
| "find_pivot ((a # as) # rs) =
     (if a \<noteq> 0 then Some (a # as, rs)
      else (case find_pivot rs of
              None \<Rightarrow> None
            | Some (p, others) \<Rightarrow> Some (p, (a # as) # others)))"

text \<open>Row \<open>r\<close> minus its first entry times the normalised pivot row, first column dropped.\<close>

definition eliminate :: "real list \<Rightarrow> real list \<Rightarrow> real list" where
  "eliminate pr r = map2 (\<lambda>a b. b - hd r * a) (tl pr) (tl r)"

lemma find_pivot_length:
  "find_pivot rows = Some (p, others) \<Longrightarrow> length others < length rows"
  by (induction rows arbitrary: p others rule: find_pivot.induct)
     (auto split: if_splits option.splits)

function gauss_solve :: "real list list \<Rightarrow> real list option" where
  "gauss_solve [] = Some []"
| "gauss_solve (r # rs) =
     (case find_pivot (r # rs) of
        None \<Rightarrow> None
      | Some (p, others) \<Rightarrow>
          (let pr = map (\<lambda>v. v / hd p) p
           in case gauss_solve (map (eliminate pr) others) of
                None \<Rightarrow> None
              | Some sol \<Rightarrow> Some ((last pr - sum_list (map2 (*) (butlast (tl pr)) sol)) # sol)))"
  by pat_completeness auto
termination
  by (relation "measure length") (auto dest: find_pivot_length)

definition spline_basis :: "real list \<Rightarrow> real \<Rightarrow> real list" where
  "spline_basis xs t =
     [1, t - xs ! 0, (t - xs ! 0)\<^sup>2, (t - xs ! 0) ^ 3] @
     map (\<lambda>j. if xs ! j < t then (t - xs ! j) ^ 3 else 0) [2..<length xs - 2]"

definition make_interp_spline :: "real list \<Rightarrow> real list \<Rightarrow> real list option" where
  "make_interp_spline xs ys = gauss_solve (map2 (\<lambda>x y. spline_basis xs x @ [y]) xs ys)"

definition spline_value :: "real list \<Rightarrow> real list \<Rightarrow> real \<Rightarrow> real" where
  "spline_value xs c t = sum_list (map2 (*) c (spline_basis xs t))"

definition interp1d_cubic :: "real list \<Rightarrow> real list \<Rightarrow> real \<Rightarrow> real" where
  "interp1d_cubic xs c x_new =
     (if x_new < xs ! 0 then 0
      else if xs ! (length xs - 1) < x_new then 1
      else spline_value xs c x_new)"

text \<open>
  The \<open>interpolate\<close> branch (the \<open>both\<close> branch computes the same curve): with more than
  4 unique counts the cubic fit is evaluated at \<open>num_points\<close> evenly spaced x-values from
  the smallest to the largest count, otherwise the deduplicated points are returned.
  The values are exact reals, never NaN, so the NaN mask keeps every point.
\<close>

definition interpolate_method :: "nat list \<Rightarrow> nat \<Rightarrow> error + (real \<times> real) list" where
  "interpolate_method rps num_points =
     (let pts = unique_points rps;
          unique_rps = map fst pts;
          unique_cumulative = map snd pts
      in if 4 < length unique_rps
         then (case make_interp_spline unique_rps unique_cumulative of
                 None \<Rightarrow> Inl LinAlgError
               | Some c \<Rightarrow>
                   let smooth_x = linspace (Min (set unique_rps)) (Max (set unique_rps)) num_points;
                       smooth_y = map (interp1d_cubic unique_rps c) smooth_x
                   in Inr (zip smooth_x smooth_y))
         else Inr pts)"

text \<open>Python's \<open>int(x)\<close> on a float truncates towards zero.\<close>

definition py_int :: "real \<Rightarrow> int" where
  "py_int x = (if 0 \<le> x then \<lfloor>x\<rfloor> else \<lceil>x\<rceil>)"

subsection \<open>Gaussian method\<close>

text \<open>
  \<open>scipy.ndimage.gaussian_filter1d(input, sigma)\<close> with its defaults (\<open>order=0\<close>,
  \<open>mode='reflect'\<close>, \<open>truncate=4.0\<close>). The kernel has the radius
  \<open>int(truncate * sigma + 0.5)\<close> and the weights \<open>exp(-0.5 / sigma\<^sup>2 * x\<^sup>2)\<close> for
  \<open>x = -radius, ..., radius\<close>, divided by their sum; \<open>-0.5 / sigma\<^sup>2\<close> is a division of
  Python floats and raises \<open>ZeroDivisionError\<close> for \<open>sigma = 0\<close>, and a negative radius is
  rejected. The input is extended by reflection about its edges
  (\<open>d c b a | a b c d | d c b a\<close>) and correlated with the kernel.
\<close>

definition gaussian_kernel1d :: "real \<Rightarrow> nat \<Rightarrow> real list" where
  "gaussian_kernel1d sigma radius =
     (let phi_x = map (\<lambda>x. exp (- 0.5 / (sigma * sigma) * (real_of_int x)\<^sup>2))
                      [- int radius..int radius]
      in map (\<lambda>p. p / sum_list phi_x) phi_x)"

definition reflect_index :: "nat \<Rightarrow> int \<Rightarrow> nat" where
  "reflect_index n j =
     (let r = j mod (2 * int n)
      in if r < int n then nat r else nat (2 * int n - 1 - r))"

definition correlate1d :: "real list \<Rightarrow> real list \<Rightarrow> real list" where
  "correlate1d input weights =
     (let n = length input; radius = length weights div 2
      in map (\<lambda>i. sum_list (map (\<lambda>k. weights ! k *
                                        input ! reflect_index n (int i + int k - int radius))
                                 [0..<length weights]))
             [0..<n])"

definition gaussian_filter1d :: "real list \<Rightarrow> real \<Rightarrow> error + real list" where
  "gaussian_filter1d input sigma =
     (let lw = py_int (4 * sigma + 0.5)
      in if sigma = 0 then Inl ZeroDivisionError
         else if lw < 0 then Inl ValueError
         else Inr (correlate1d input (gaussian_kernel1d sigma (nat lw))))"

text \<open>
  The \<open>gaussian\<close> branch: \<open>sigma = smoothing_factor * len(sorted_rps) / 100\<close>, the filter
  runs over the raw cumulative values, and the x-axis is \<open>sorted_rps\<close>.
\<close>

definition gaussian_method :: "nat list \<Rightarrow> real \<Rightarrow> error + (real \<times> real) list" where
  "gaussian_method rps smoothing_factor =
     (let sorted_rps = sort rps;
          sigma = smoothing_factor * real (length sorted_rps) / 100
      in case gaussian_filter1d (cumulative (length sorted_rps)) sigma of
           Inl e \<Rightarrow> Inl e
         | Inr smooth_y \<Rightarrow> Inr (zip (map real sorted_rps) smooth_y))"

subsection \<open>Double-precision arithmetic\<close>

text \<open>
  The Binned method multiplies the length by the smoothing factor, truncates the product,
  and compares integer counts with bin centers computed by \<open>np.linspace\<close>: its results
  depend on the rounding of each operation. A double is modelled by the real number it
  denotes, and every arithmetic operation of the source by the exact operation followed
  by \<open>double\<close>, the IEEE-754 binary64 rounding to nearest, ties to even: 53 significant bits,
  gradual underflow below \<open>2 ^ (- 1022)\<close>. Overflow to infinity is not modelled; the theorems about
  the Binned method bound their inputs so that every intermediate value stays far below
  \<open>2 ^ 1024\<close>.
\<close>

text \<open>\<open>ilog2 n\<close> is \<open>\<lfloor>log\<^sub>2 n\<rfloor>\<close> for \<open>n > 0\<close>.\<close>

fun ilog2 :: "nat \<Rightarrow> nat" where
  "ilog2 n = (if n < 2 then 0 else Suc (ilog2 (n div 2)))"

declare ilog2.simps [simp del]

text \<open>The binary exponent of a positive real: \<open>2 ^ exponent x \<le> x < 2 ^ (exponent x + 1)\<close>.\<close>

definition exponent :: "real \<Rightarrow> int" where
  "exponent x =
     (if 1 \<le> x then int (ilog2 (nat \<lfloor>x\<rfloor>))
      else - int (Suc (ilog2 (nat \<lceil>1 / x\<rceil> - 1))))"

definition pow2 :: "int \<Rightarrow> real" where
  "pow2 e = (if 0 \<le> e then 2 ^ nat e else 1 / 2 ^ nat (- e))"

text \<open>Rounding to the nearest integer, ties to the even one.\<close>

definition round_even :: "real \<Rightarrow> int" where
  "round_even q =
     (let f = \<lfloor>q\<rfloor>; d = q - real_of_int f
      in if d < 1 / 2 then f
         else if 1 / 2 < d then f + 1
         else if even f then f else f + 1)"

text \<open>
  The double nearest to a real: the significand is rounded to a multiple of the unit in
  the last place \<open>u\<close>, which is \<open>2 ^ (e - 52)\<close> for a number with binary exponent \<open>e\<close> and
  \<open>2 ^ (- 1074)\<close> for a subnormal one.
\<close>

definition double :: "real \<Rightarrow> real" where
  "double x =
     (if x = 0 then 0
      else let u = pow2 (max (exponent \<bar>x\<bar>) (- 1022) - 52)
           in sgn x * real_of_int (round_even (\<bar>x\<bar> / u)) * u)"

subsection \<open>Binned method\<close>

text \<open>
  \<open>np.linspace(start, stop, num)\<close> on doubles, operation by operation:
  \<open>delta = stop - start\<close>, \<open>step = delta / div\<close> with \<open>div = num - 1\<close>,
  \<open>y = arange(0, num) * step\<close> (or \<open>arange(0, num) / div * delta\<close> when the step is zero),
  \<open>y += start\<close>, and the last element is overwritten by \<open>stop\<close>.
\<close>

definition linspace_double :: "real \<Rightarrow> real \<Rightarrow> nat \<Rightarrow> real list" where
  "linspace_double start stop num =
     (let dv = num - 1;
          delta = double (stop - start);
          step = double (delta / real dv);
          y = map (\<lambda>i. if 0 < dv
                        then (if step = 0 then double (double (real i / real dv) * delta)
                              else double (real i * step))
                        else double (real i * delta)) [0..<num];
          y = map (\<lambda>v. double (v + start)) y
      in if 1 < num then y[num - 1 := stop] else y)"

text \<open>
  \<open>num_bins = max(20, int(len(sorted_rps) * smoothing_factor))\<close>: the product is a double,
  and \<open>int\<close> truncates it. The smoothing factor is a Python float, that is a double.
\<close>

definition num_bins :: "nat \<Rightarrow> real \<Rightarrow> nat" where
  "num_bins n smoothing_factor = nat (max 20 (py_int (double (real n * smoothing_factor))))"

text \<open>\<open>bin_edges = np.linspace(sorted_rps.min(), sorted_rps.max(), num_bins + 1)\<close>\<close>

definition bin_edges :: "nat list \<Rightarrow> real \<Rightarrow> real list" where
  "bin_edges sorted_rps smoothing_factor =
     linspace_double (double (real (Min (set sorted_rps)))) (double (real (Max (set sorted_rps))))
       (num_bins (length sorted_rps) smoothing_factor + 1)"

text \<open>\<open>bin_centers = (bin_edges[:-1] + bin_edges[1:]) / 2\<close>\<close>

definition bin_centers :: "nat list \<Rightarrow> real \<Rightarrow> real list" where
  "bin_centers sorted_rps smoothing_factor =
     (let edges = bin_edges sorted_rps smoothing_factor
      in map2 (\<lambda>a b. double (double (a + b) / 2)) (butlast edges) (tl edges))"

text \<open>
  \<open>np.mean(sorted_rps <= edge)\<close>: the integer counts are converted to doubles for the
  comparison, and the number of counts at most \<open>edge\<close> is divided by the length.
\<close>

definition fraction_le :: "nat list \<Rightarrow> real \<Rightarrow> real" where
  "fraction_le sorted_rps edge =
     double (real (length (filter (\<lambda>c. double (real c) \<le> edge) sorted_rps))
             / real (length sorted_rps))"

definition binned_method :: "nat list \<Rightarrow> real \<Rightarrow> (real \<times> real) list" where
  "binned_method rps smoothing_factor =
     (let sorted_rps = sort rps;
          centers = bin_centers sorted_rps smoothing_factor
      in zip centers (map (fraction_le sorted_rps) centers))"

section \<open>Plotting entry points\<close>

text \<open>
  What a run of a script leaves behind: the lines it prints and the image it saves, if
  any. An image is the plotted curve and the horizontal or vertical reference lines
  (percentiles, average).
\<close>

datatype message = Loading | UsingSmoothing | NoData string | Statistics | PlotSaved

record plot =
  curve :: "(real \<times> real) list"
  reference_lines :: "real option list"

record run =
  printed :: "message list"
  image :: "plot option"

text \<open>
  \<open>plot_rps_cdf.py\<close>, \<open>main\<close>, after the table is read: the rows are filtered to
  \<open>http_reqs\<close>, counted per second, and the raw CDF is plotted and saved. There is no test
  for an empty selection.
\<close>

definition plot_rps_cdf_main :: "table \<Rightarrow> run" where
  "plot_rps_cdf_main df =
     (let http_reqs = filter_metric ''http_reqs'' df;
          rps = per_second_counts (map timestamp http_reqs);
          sorted_rps = sort rps
      in \<lparr> printed = [PlotSaved],
           image = Some \<lparr> curve = zip (map real sorted_rps) (cumulative (length sorted_rps)),
                               reference_lines = [] \<rparr> \<rparr>)"

text \<open>\<open>plot_request_times.py\<close>, \<open>plot_request_times\<close>, after the table is read.\<close>

definition plot_request_times :: "table \<Rightarrow> run" where
  "plot_request_times df =
     (let http_duration = filter_metric ''http_req_duration'' df
      in if http_duration = []
         then \<lparr> printed = [Loading, NoData ''No HTTP request duration data found!''],
                image = None \<rparr>
         else
           let sorted_rows = sort_key timestamp http_duration;
               start_time = Min (set (map timestamp sorted_rows));
               vs = map metric_value sorted_rows
           in \<lparr> printed = [Loading, Statistics, PlotSaved],
                image = Some \<lparr> curve = map (\<lambda>r. (timestamp r - start_time, metric_value r)) sorted_rows,
                                    reference_lines = [quantile vs 0.95, quantile vs 0.99] \<rparr> \<rparr>)"

text \<open>
  \<open>plot_rps_cdf_smooth.py\<close>, \<open>plot_rps_cdf_smooth\<close>, after the table is read. The method
  is one of the four \<open>argparse\<close> choices; an exception of a library call leaves the
  function.
\<close>

datatype cdf_method = Interpolate | Gaussian | Binned | Both

definition plot_rps_cdf_smooth :: "table \<Rightarrow> cdf_method \<Rightarrow> real \<Rightarrow> nat \<Rightarrow> error + run" where
  "plot_rps_cdf_smooth df smoothing_method smoothing_factor num_points =
     (let http_reqs = filter_metric ''http_reqs'' df
      in if http_reqs = []
         then Inr \<lparr> printed = [Loading, UsingSmoothing, NoData ''No HTTP requests data found!''],
                    image = None \<rparr>
         else
           let rps = per_second_counts (map timestamp http_reqs);
               sorted_rps = map real (sort rps);
               smooth = (case smoothing_method of
                           Interpolate \<Rightarrow> interpolate_method rps num_points
                         | Gaussian \<Rightarrow> gaussian_method rps smoothing_factor
                         | Binned \<Rightarrow> Inr (binned_method rps smoothing_factor)
                         | Both \<Rightarrow> interpolate_method rps num_points)
           in case smooth of
                Inl e \<Rightarrow> Inl e
              | Inr points \<Rightarrow>
                  Inr \<lparr> printed = [Loading, UsingSmoothing, Statistics, PlotSaved],
                        image = Some \<lparr> curve = points,
                                            reference_lines = [percentile sorted_rps 50,
                                              percentile sorted_rps 95, percentile sorted_rps 99] \<rparr> \<rparr>)"

text \<open>
  \<open>plot_request_times_smooth.py\<close>, \<open>plot_request_times_smooth\<close>, after the table is read.
  The resample frequency is the bucket width in seconds. pandas rejects a negative
  rolling window and a non-positive frequency with \<open>ValueError\<close>. The curve holds the
  defined points of the smoothed column against the relative time, or the retained
  buckets' means.
\<close>

datatype latency_method = Rolling | Resample | Savgol | BothLatency

definition plot_request_times_smooth ::
    "table \<Rightarrow> latency_method \<Rightarrow> int \<Rightarrow> real \<Rightarrow> error + run" where
  "plot_request_times_smooth df smoothing_method window_size resample_freq =
     (let http_duration = filter_metric ''http_req_duration'' df
      in if http_duration = []
         then Inr \<lparr> printed = [Loading, UsingSmoothing, NoData ''No HTTP request duration data found!''],
                    image = None \<rparr>
         else
           let sorted_rows = sort_key timestamp http_duration;
               start_time = Min (set (map timestamp sorted_rows));
               rel = map (\<lambda>r. timestamp r - start_time) sorted_rows;
               vs = map metric_value sorted_rows;
               against_time = (\<lambda>smoothed. map (\<lambda>(i, y). (rel ! i, y)) (defined_points smoothed));
               rolling = (if window_size < 0 then Inl ValueError
                          else Inr (against_time (rolling_mean (nat window_size) vs)));
               smooth = (case smoothing_method of
                           Rolling \<Rightarrow> rolling
                         | Resample \<Rightarrow>
                             (if resample_freq \<le> 0 then Inl ValueError
                              else Inr (concat (map (\<lambda>b. case bucket_mean b of
                                                             None \<Rightarrow> []
                                                           | Some m \<Rightarrow> [(relative_time b, m)])
                                          (resample_method resample_freq (zip (map timestamp sorted_rows) vs)))))
                         | Savgol \<Rightarrow>
                             (case savgol_method window_size vs of
                                Inl e \<Rightarrow> Inl e
                              | Inr smoothed \<Rightarrow> Inr (against_time smoothed))
                         | BothLatency \<Rightarrow> rolling)
           in case smooth of
                Inl e \<Rightarrow> Inl e
              | Inr points \<Rightarrow>
                  Inr \<lparr> printed = [Loading, UsingSmoothing, Statistics, PlotSaved],
                        image = Some \<lparr> curve = points,
                                            reference_lines = [quantile vs 0.95, quantile vs 0.99,
                                                               Some (mean vs)] \<rparr> \<rparr>)"

section \<open>Order statistics: proofs\<close>

lemma lerp_rank_bounds:
  assumes srt: "sorted s" and ne: "s \<noteq> []" and h0: "0 \<le> h" and h1: "h \<le> real (length s - 1)"
  shows "s ! nat \<lfloor>h\<rfloor> \<le> lerp_rank s h" and "lerp_rank s h \<le> s ! min (nat \<lfloor>h\<rfloor> + 1) (length s - 1)"
proof -
  let ?lo = "nat \<lfloor>h\<rfloor>"
  let ?hi = "min (?lo + 1) (length s - 1)"
  let ?t = "h - real ?lo"
  have lo_le: "real ?lo \<le> h" using h0 by (simp add: of_nat_nat)
  have lo_lt: "h < real ?lo + 1" using h0 by (simp add: of_nat_nat)
  have t0: "0 \<le> ?t" using lo_le by linarith
  have t1: "?t \<le> 1" using lo_lt by linarith
  have lo_n: "?lo \<le> length s - 1"
  proof -
    have "real ?lo \<le> real (length s - 1)" using lo_le h1 by linarith
    then show ?thesis by simp
  qed
  have len: "0 < length s" using ne by simp
  have hi_n: "?hi < length s" using len by linarith
  have "?lo \<le> ?hi" using lo_n by simp
  then have ab: "s ! ?lo \<le> s ! ?hi" using srt hi_n by (simp add: sorted_nth_mono)
  have eq: "lerp_rank s h = s ! ?lo + (s ! ?hi - s ! ?lo) * ?t"
    by (simp add: lerp_rank_def Let_def)
  have d0: "0 \<le> s ! ?hi - s ! ?lo" using ab by simp
  have "0 \<le> (s ! ?hi - s ! ?lo) * ?t" using d0 t0 by simp
  then show "s ! ?lo \<le> lerp_rank s h" using eq by linarith
  have "(s ! ?hi - s ! ?lo) * ?t \<le> (s ! ?hi - s ! ?lo) * 1"
    using d0 t1 by (rule mult_left_mono[rotated])
  then show "lerp_rank s h \<le> s ! ?hi" using eq by simp
qed

lemma lerp_rank_mono:
  assumes srt: "sorted s" and ne: "s \<noteq> []" and h0: "0 \<le> h1" and h12: "h1 \<le> h2"
    and hn: "h2 \<le> real (length s - 1)"
  shows "lerp_rank s h1 \<le> lerp_rank s h2"
proof (cases "nat \<lfloor>h1\<rfloor> = nat \<lfloor>h2\<rfloor>")
  case True
  let ?lo = "nat \<lfloor>h1\<rfloor>"
  let ?hi = "min (?lo + 1) (length s - 1)"
  have len: "0 < length s" using ne by simp
  have lo_le: "real ?lo \<le> h1" using h0 by (simp add: of_nat_nat)
  have "real ?lo \<le> real (length s - 1)" using lo_le h12 hn by linarith
  then have lo_n: "?lo \<le> length s - 1" by simp
  have hi_n: "?hi < length s" using len by linarith
  have "?lo \<le> ?hi" using lo_n by simp
  then have ab: "s ! ?lo \<le> s ! ?hi" using srt hi_n by (simp add: sorted_nth_mono)
  have "(s ! ?hi - s ! ?lo) * (h1 - real ?lo) \<le> (s ! ?hi - s ! ?lo) * (h2 - real ?lo)"
    using ab h12 by (intro mult_left_mono) simp_all
  then show ?thesis using True by (simp add: lerp_rank_def Let_def)
next
  case False
  have h20: "0 \<le> h2" using h0 h12 by simp
  have h1n: "h1 \<le> real (length s - 1)" using h12 hn by simp
  have "\<lfloor>h1\<rfloor> \<le> \<lfloor>h2\<rfloor>" using h12 by (rule floor_mono)
  then have "nat \<lfloor>h1\<rfloor> \<le> nat \<lfloor>h2\<rfloor>" by simp
  with False have lt: "nat \<lfloor>h1\<rfloor> + 1 \<le> nat \<lfloor>h2\<rfloor>" by simp
  have "real (nat \<lfloor>h2\<rfloor>) \<le> h2" using h20 by (simp add: of_nat_nat)
  then have "real (nat \<lfloor>h2\<rfloor>) \<le> real (length s - 1)" using hn by linarith
  then have lo2: "nat \<lfloor>h2\<rfloor> \<le> length s - 1" by simp
  have len: "0 < length s" using ne by simp
  have "lerp_rank s h1 \<le> s ! min (nat \<lfloor>h1\<rfloor> + 1) (length s - 1)"
    using lerp_rank_bounds(2)[OF srt ne h0 h1n] .
  also have "\<dots> \<le> s ! nat \<lfloor>h2\<rfloor>"
    using srt lt lo2 len by (intro sorted_nth_mono) simp_all
  also have "\<dots> \<le> lerp_rank s h2"
    using lerp_rank_bounds(1)[OF srt ne h20 hn] .
  finally show ?thesis .
qed

lemma lerp_rank_le_Max:
  assumes srt: "sorted s" and ne: "s \<noteq> []" and h0: "0 \<le> h" and h1: "h \<le> real (length s - 1)"
  shows "lerp_rank s h \<le> Max (set s)"
proof -
  have "0 < length s" using ne by simp
  then have "min (nat \<lfloor>h\<rfloor> + 1) (length s - 1) < length s" by linarith
  then have "s ! min (nat \<lfloor>h\<rfloor> + 1) (length s - 1) \<in> set s" by (rule nth_mem)
  then have "s ! min (nat \<lfloor>h\<rfloor> + 1) (length s - 1) \<le> Max (set s)" by simp
  with lerp_rank_bounds(2)[OF srt ne h0 h1] show ?thesis by linarith
qed

lemma quantile_Some:
  "a \<noteq> [] \<Longrightarrow> quantile a q = Some (lerp_rank (sort a) (q * real (length a - 1)))"
  by (simp add: quantile_def)

lemma quantile_mono:
  assumes ne: "a \<noteq> []" and q0: "0 \<le> q1" and q12: "q1 \<le> q2" and q1: "q2 \<le> 1"
  shows "lerp_rank (sort a) (q1 * real (length a - 1)) \<le> lerp_rank (sort a) (q2 * real (length a - 1))"
proof -
  have "q2 * real (length a - 1) \<le> 1 * real (length a - 1)"
    using q1 by (intro mult_right_mono) simp_all
  then have "q2 * real (length a - 1) \<le> real (length (sort a) - 1)" by simp
  moreover have "q1 * real (length a - 1) \<le> q2 * real (length a - 1)"
    using q12 by (intro mult_right_mono) simp_all
  moreover have "0 \<le> q1 * real (length a - 1)" using q0 by simp
  moreover have "sort a \<noteq> []" using ne by (metis length_sort length_0_conv)
  ultimately show ?thesis by (intro lerp_rank_mono) simp_all
qed

lemma quantile_le_Max:
  assumes ne: "a \<noteq> []" and q0: "0 \<le> q" and q1: "q \<le> 1"
  shows "lerp_rank (sort a) (q * real (length a - 1)) \<le> Max (set a)"
proof -
  have "q * real (length a - 1) \<le> 1 * real (length a - 1)"
    using q1 by (intro mult_right_mono) simp_all
  then have "q * real (length a - 1) \<le> real (length (sort a) - 1)" by simp
  moreover have "0 \<le> q * real (length a - 1)" using q0 by simp
  moreover have "sort a \<noteq> []" using ne by (metis length_sort length_0_conv)
  ultimately have "lerp_rank (sort a) (q * real (length a - 1)) \<le> Max (set (sort a))"
    by (intro lerp_rank_le_Max) simp_all
  then show ?thesis by simp
qed

text \<open>
  C8. For every non-empty numeric sequence the linear-interpolation percentiles are
  defined and ordered: \<open>P50 \<le> P95 \<le> P99 \<le> max\<close>.
\<close>

theorem percentile_order:
  assumes "a \<noteq> []"
  shows "\<exists>p50 p95 p99.
           percentile a 50 = Some p50 \<and> percentile a 95 = Some p95 \<and>
           percentile a 99 = Some p99 \<and>
           p50 \<le> p95 \<and> p95 \<le> p99 \<and> p99 \<le> Max (set a)"
proof -
  let ?p = "\<lambda>q. lerp_rank (sort a) (q * real (length a - 1))"
  have "?p (50 / 100) \<le> ?p (95 / 100)" by (rule quantile_mono[OF assms]) simp_all
  moreover have "?p (95 / 100) \<le> ?p (99 / 100)" by (rule quantile_mono[OF assms]) simp_all
  moreover have "?p (99 / 100) \<le> Max (set a)" by (rule quantile_le_Max[OF assms]) simp_all
  ultimately show ?thesis
    using assms unfolding percentile_def by (simp add: quantile_Some)
qed

theorem percentile_order_witness:
  "[10, 20, 30 :: real] \<noteq> [] \<and>
   (\<exists>p50 p95 p99.
           percentile [10, 20, 30] 50 = Some p50 \<and> percentile [10, 20, 30] 95 = Some p95 \<and>
           percentile [10, 20, 30] 99 = Some p99 \<and>
           p50 \<le> p95 \<and> p95 \<le> p99 \<and> p99 \<le> Max (set [10, 20, 30]))"
  using percentile_order[of "[10, 20, 30]"] by simp

section \<open>Latency smoothing: rolling average and bucketed resample\<close>

subsection \<open>Rolling average\<close>

lemma sum_list_upper: "\<forall>x \<in> set xs. x \<le> (M::real) \<Longrightarrow> sum_list xs \<le> real (length xs) * M"
  by (induction xs) (auto simp: algebra_simps)

lemma sum_list_lower: "\<forall>x \<in> set xs. (m::real) \<le> x \<Longrightarrow> real (length xs) * m \<le> sum_list xs"
  by (induction xs) (auto simp: algebra_simps)

lemma mean_bounds:
  assumes "xs \<noteq> []"
  shows "Min (set xs) \<le> mean xs" and "mean xs \<le> Max (set xs)"
proof -
  have len: "0 < real (length xs)" using assms by simp
  have "real (length xs) * Min (set xs) \<le> sum_list xs"
    by (rule sum_list_lower) simp
  then show "Min (set xs) \<le> mean xs"
    using len by (simp add: mean_def pos_le_divide_eq mult.commute)
  have "sum_list xs \<le> real (length xs) * Max (set xs)"
    by (rule sum_list_upper) simp
  then show "mean xs \<le> Max (set xs)"
    using len by (simp add: mean_def pos_divide_le_eq mult.commute)
qed

lemma mean_replicate: "0 < n \<Longrightarrow> mean (replicate n v) = v"
  by (simp add: mean_def sum_list_replicate)

lemma window_len_aux:
  "min (n - min (a - w) n) (min a n - min (a - w) n) = min a n - min (a - w) (n::nat)"
  by (simp add: min_def) linarith

lemma window_full_aux:
  "1 \<le> (w::nat) \<Longrightarrow>
   (w \<le> min a n - min (a - w) n \<and> 0 < min a n - min (a - w) n) \<longleftrightarrow> (w \<le> a \<and> a \<le> n)"
  by (auto simp: min_def split: if_splits)

lemma window_end_aux:
  "w \<le> a \<Longrightarrow> a \<le> n \<Longrightarrow> 1 \<le> w \<Longrightarrow> min a n - min (a - w) n = (w::nat)"
  by (simp add: min_def)

lemma window_start_aux:
  "w \<le> i + 1 + off \<Longrightarrow> i + 1 + off \<le> n \<Longrightarrow> 1 \<le> w \<Longrightarrow> off \<le> w - 1 \<Longrightarrow>
   min (i + 1 + off - w) n = i - (w - 1 - (off::nat))"
  by (simp add: min_def)

lemma window_range_aux:
  "1 \<le> w \<Longrightarrow> off \<le> w - 1 \<Longrightarrow>
   (w \<le> i + 1 + off \<and> i + 1 + off \<le> n) = (w - 1 - off \<le> i \<and> i < n - (off::nat))"
  by linarith

lemma window_count_aux:
  "1 \<le> w \<Longrightarrow> off \<le> w - 1 \<Longrightarrow> min (n - off) n - (w - 1 - off) = n + 1 - (w::nat)"
  by (simp add: min_def)

lemma length_window_slice:
  "length (window_slice w xs i) =
     min (i + 1 + (w - 1) div 2) (length xs) - min (i + 1 + (w - 1) div 2 - w) (length xs)"
  by (simp add: window_slice_def Let_def window_len_aux del: One_nat_def)

lemma window_full_iff:
  assumes "1 \<le> w"
  shows "(w \<le> length (window_slice w xs i) \<and> 0 < length (window_slice w xs i)) \<longleftrightarrow>
         (w \<le> i + 1 + (w - 1) div 2 \<and> i + 1 + (w - 1) div 2 \<le> length xs)"
  unfolding length_window_slice by (rule window_full_aux[OF assms])

lemma rolling_mean_nth:
  "i < length xs \<Longrightarrow> rolling_mean w xs ! i =
     (if w \<le> length (window_slice w xs i) \<and> 0 < length (window_slice w xs i)
      then Some (mean (window_slice w xs i)) else None)"
  by (simp add: rolling_mean_def Let_def)

lemma length_rolling_mean: "length (rolling_mean w xs) = length xs"
  by (simp add: rolling_mean_def)

lemma defined_rolling_set:
  assumes "1 \<le> w"
  shows "filter (\<lambda>i. rolling_mean w xs ! i \<noteq> None) [0..<length xs] =
         filter (\<lambda>i. w \<le> i + 1 + (w - 1) div 2 \<and> i + 1 + (w - 1) div 2 \<le> length xs) [0..<length xs]"
proof (rule filter_cong[OF refl])
  fix i assume "i \<in> set [0..<length xs]"
  then have i: "i < length xs" by simp
  have "(rolling_mean w xs ! i \<noteq> None) =
        (w \<le> length (window_slice w xs i) \<and> 0 < length (window_slice w xs i))"
    unfolding rolling_mean_nth[OF i]
    by (cases "w \<le> length (window_slice w xs i) \<and> 0 < length (window_slice w xs i)") simp_all
  then show "(rolling_mean w xs ! i \<noteq> None) =
        (w \<le> i + 1 + (w - 1) div 2 \<and> i + 1 + (w - 1) div 2 \<le> length xs)"
    unfolding window_full_iff[OF assms] .
qed

lemma length_filter_interval:
  "length (filter (\<lambda>i. a \<le> i \<and> i < b) [0..<n]) = min b n - a"
proof -
  have "length (filter (\<lambda>i. a \<le> i \<and> i < b) [0..<n]) = card ({i. a \<le> i \<and> i < b} \<inter> set [0..<n])"
    by (rule distinct_length_filter) simp
  also have "{i. a \<le> i \<and> i < b} \<inter> set [0..<n] = {a..<min b n}" by auto
  finally show ?thesis by simp
qed

lemma length_defined_points:
  "length (defined_points ys) = length (filter (\<lambda>i. ys ! i \<noteq> None) [0..<length ys])"
  unfolding defined_points_def by (rule length_map)

lemma count_defined_rolling:
  assumes w: "1 \<le> w"
  shows "length (defined_points (rolling_mean w xs)) = length xs + 1 - w"
proof -
  define off where "off = (w - 1) div 2"
  define n where "n = length xs"
  have off: "off \<le> w - 1" by (simp add: off_def)
  have eq: "(\<lambda>i. w \<le> i + 1 + off \<and> i + 1 + off \<le> n) = (\<lambda>i. w - 1 - off \<le> i \<and> i < n - off)"
    by (intro ext window_range_aux[OF w off])
  have "length (defined_points (rolling_mean w xs)) =
        length (filter (\<lambda>i. w \<le> i + 1 + off \<and> i + 1 + off \<le> n) [0..<n])"
    unfolding length_defined_points length_rolling_mean defined_rolling_set[OF w] off_def n_def ..
  also have "\<dots> = length (filter (\<lambda>i. w - 1 - off \<le> i \<and> i < n - off) [0..<n])"
    unfolding eq ..
  also have "\<dots> = min (n - off) n - (w - 1 - off)" by (rule length_filter_interval)
  also have "\<dots> = n + 1 - w" by (rule window_count_aux[OF w off])
  finally show ?thesis unfolding n_def .
qed

lemma defined_point_window:
  assumes w: "1 \<le> w" and mem: "(i, y) \<in> set (defined_points (rolling_mean w xs))"
  shows "w - 1 - (w - 1) div 2 \<le> i" and "i + (w - 1) div 2 < length xs"
    and "window_slice w xs i = take w (drop (i - (w - 1 - (w - 1) div 2)) xs)"
    and "length (window_slice w xs i) = w"
    and "y = mean (window_slice w xs i)"
proof -
  define off where "off = (w - 1) div 2"
  define n where "n = length xs"
  from mem have i: "i < length xs" and ne: "rolling_mean w xs ! i \<noteq> None"
    and y: "y = the (rolling_mean w xs ! i)"
    by (auto simp: defined_points_def length_rolling_mean)
  from ne have full: "w \<le> length (window_slice w xs i) \<and> 0 < length (window_slice w xs i)"
    using i by (simp add: rolling_mean_nth split: if_splits)
  then have b: "w \<le> i + 1 + off" "i + 1 + off \<le> n"
    using window_full_iff[OF w, of xs i] by (simp_all add: off_def n_def)
  have off: "off \<le> w - 1" by (simp add: off_def)
  have "w - 1 - off \<le> i" using b w by linarith
  then show "w - 1 - (w - 1) div 2 \<le> i" unfolding off_def .
  have "i + off < n" using b by linarith
  then show "i + (w - 1) div 2 < length xs" unfolding off_def n_def .
  have e: "min (i + 1 + off) n - min (i + 1 + off - w) n = w"
    by (rule window_end_aux[OF b w])
  have s: "min (i + 1 + off - w) n = i - (w - 1 - off)"
    by (rule window_start_aux[OF b w off])
  show "window_slice w xs i = take w (drop (i - (w - 1 - (w - 1) div 2)) xs)"
    using e s by (simp add: window_slice_def Let_def off_def n_def)
  show "length (window_slice w xs i) = w"
    using e unfolding length_window_slice off_def n_def .
  show "y = mean (window_slice w xs i)"
    using y full i by (simp add: rolling_mean_nth)
qed


text \<open>
  C6. For an input of length \<open>n\<close> and a window \<open>w\<close> of at least one sample, the
  rolling average keeps one row per input row; when \<open>n \<ge> w\<close> exactly
  \<open>n - (w - 1)\<close> of them are defined, when \<open>n < w\<close> none is. Every defined value at
  row \<open>i\<close> is the mean of the \<open>w\<close> samples of the centered window slice (the rows
  \<open>i - (w - 1 - (w - 1) div 2)\<close> to \<open>i + (w - 1) div 2\<close>) and lies between the minimum and
  the maximum of that slice.
\<close>

theorem rolling_average_output:
  assumes w: "1 \<le> w"
  shows "length (rolling_mean w xs) = length xs \<and>
         (w \<le> length xs \<longrightarrow>
            length (defined_points (rolling_mean w xs)) = length xs - (w - 1)) \<and>
         (length xs < w \<longrightarrow> defined_points (rolling_mean w xs) = []) \<and>
         (\<forall>(i, y) \<in> set (defined_points (rolling_mean w xs)).
            w - 1 - (w - 1) div 2 \<le> i \<and> i + (w - 1) div 2 < length xs \<and>
            window_slice w xs i = take w (drop (i - (w - 1 - (w - 1) div 2)) xs) \<and>
            length (window_slice w xs i) = w \<and>
            y = mean (window_slice w xs i) \<and>
            Min (set (window_slice w xs i)) \<le> y \<and> y \<le> Max (set (window_slice w xs i)))"
proof (intro conjI impI)
  show "length (rolling_mean w xs) = length xs" by (rule length_rolling_mean)
next
  assume "w \<le> length xs"
  then show "length (defined_points (rolling_mean w xs)) = length xs - (w - 1)"
    using w unfolding count_defined_rolling[OF w] by linarith
next
  assume "length xs < w"
  then have "length (defined_points (rolling_mean w xs)) = 0"
    by (simp add: count_defined_rolling[OF w])
  then show "defined_points (rolling_mean w xs) = []" by simp
next
  show "\<forall>(i, y) \<in> set (defined_points (rolling_mean w xs)).
            w - 1 - (w - 1) div 2 \<le> i \<and> i + (w - 1) div 2 < length xs \<and>
            window_slice w xs i = take w (drop (i - (w - 1 - (w - 1) div 2)) xs) \<and>
            length (window_slice w xs i) = w \<and>
            y = mean (window_slice w xs i) \<and>
            Min (set (window_slice w xs i)) \<le> y \<and> y \<le> Max (set (window_slice w xs i))"
  proof (clarify, intro conjI)
    fix i y assume mem: "(i, y) \<in> set (defined_points (rolling_mean w xs))"
    note dp = defined_point_window[OF w mem]
    show "w - 1 - (w - 1) div 2 \<le> i" by (rule dp(1))
    show "i + (w - 1) div 2 < length xs" by (rule dp(2))
    show "window_slice w xs i = take w (drop (i - (w - 1 - (w - 1) div 2)) xs)" by (rule dp(3))
    show "length (window_slice w xs i) = w" by (rule dp(4))
    show "y = mean (window_slice w xs i)" by (rule dp(5))
    have ne: "window_slice w xs i \<noteq> []" using dp(4) w by auto
    show "Min (set (window_slice w xs i)) \<le> y" using mean_bounds(1)[OF ne] dp(5) by simp
    show "y \<le> Max (set (window_slice w xs i))" using mean_bounds(2)[OF ne] dp(5) by simp
  qed
qed

theorem rolling_average_output_witness:
  "1 \<le> (3::nat) \<and> 3 \<le> length [1, 2, 3, 4, 5::real] \<and>
   length (rolling_mean 3 [1, 2, 3, 4, 5]) = length [1, 2, 3, 4, 5::real] \<and>
   length (defined_points (rolling_mean 3 [1, 2, 3, 4, 5])) = length [1, 2, 3, 4, 5::real] - (3 - 1) \<and>
   (1, 2) \<in> set (defined_points (rolling_mean 3 [1, 2, 3, 4, 5])) \<and>
   length (window_slice 3 [1, 2, 3, 4, 5] 1) = 3 \<and>
   2 = mean (window_slice 3 [1, 2, 3, 4, 5] 1) \<and>
   Min (set (window_slice 3 [1, 2, 3, 4, 5] 1)) \<le> 2 \<and>
   2 \<le> Max (set (window_slice 3 [1, 2, 3, 4, 5] 1)) \<and>
   length [1, 2::real] < 3 \<and> defined_points (rolling_mean 3 [1, 2]) = []"
proof -
  have h: "1 \<le> (3::nat)" by simp
  have n: "3 \<le> length [1, 2, 3, 4, 5::real]" by simp
  have m: "length [1, 2::real] < 3" by simp
  have r: "rolling_mean 3 [1, 2, 3, 4, 5] = [None, Some 2, Some 3, Some 4, None]"
    by (simp add: rolling_mean_def window_slice_def mean_def Let_def upt_rec)
  have mem: "(1, 2) \<in> set (defined_points (rolling_mean 3 [1, 2, 3, 4, 5]))"
    unfolding r by (simp add: defined_points_def upt_rec)
  note a = rolling_average_output[OF h, of "[1, 2, 3, 4, 5]"]
  note b = rolling_average_output[OF h, of "[1, 2]"]
  from a have a1: "length (rolling_mean 3 [1, 2, 3, 4, 5]) = length [1, 2, 3, 4, 5::real]"
    by (rule conjunct1)
  from a have a2: "3 \<le> length [1, 2, 3, 4, 5::real] \<longrightarrow>
       length (defined_points (rolling_mean 3 [1, 2, 3, 4, 5])) = length [1, 2, 3, 4, 5::real] - (3 - 1)"
    by (rule conjunct1[OF conjunct2])
  from b have b1: "length [1, 2::real] < 3 \<longrightarrow> defined_points (rolling_mean 3 [1, 2]) = []"
    by (rule conjunct1[OF conjunct2[OF conjunct2]])
  from a have a3: "\<forall>(i, y) \<in> set (defined_points (rolling_mean 3 [1, 2, 3, 4, 5])).
            3 - 1 - (3 - 1) div 2 \<le> i \<and> i + (3 - 1) div 2 < length [1, 2, 3, 4, 5::real] \<and>
            window_slice 3 [1, 2, 3, 4, 5] i = take 3 (drop (i - (3 - 1 - (3 - 1) div 2)) [1, 2, 3, 4, 5]) \<and>
            length (window_slice 3 [1, 2, 3, 4, 5] i) = 3 \<and>
            y = mean (window_slice 3 [1, 2, 3, 4, 5] i) \<and>
            Min (set (window_slice 3 [1, 2, 3, 4, 5] i)) \<le> y \<and> y \<le> Max (set (window_slice 3 [1, 2, 3, 4, 5] i))"
    by (rule conjunct2[OF conjunct2[OF conjunct2]])
  have a4: "length (window_slice 3 [1, 2, 3, 4, 5] 1) = 3 \<and>
   2 = mean (window_slice 3 [1, 2, 3, 4, 5] 1) \<and>
   Min (set (window_slice 3 [1, 2, 3, 4, 5] 1)) \<le> 2 \<and>
   2 \<le> Max (set (window_slice 3 [1, 2, 3, 4, 5] 1))"
    using bspec[OF a3 mem, unfolded prod.case] by blast
  show ?thesis
    apply (intro conjI)
    apply (rule h)
    apply (rule n)
    apply (rule a1)
    apply (rule mp[OF a2 n])
    apply (rule mem)
    apply (rule conjunct1[OF a4])
    apply (rule conjunct1[OF conjunct2[OF a4]])
    apply (rule conjunct1[OF conjunct2[OF conjunct2[OF a4]]])
    apply (rule conjunct2[OF conjunct2[OF conjunct2[OF a4]]])
    apply (rule m)
    apply (rule mp[OF b1 m])
    done
qed

subsection \<open>Bucketed resample\<close>

lemma sum_count_distinct:
  "distinct ks \<Longrightarrow>
   sum_list (map (\<lambda>k. length (filter (\<lambda>s. f s = k) xs)) ks) \<le> length xs"
proof (induction xs)
  case Nil
  then show ?case by simp
next
  case (Cons x xs)
  have one: "sum_list (map (\<lambda>k. if f x = k then 1 else 0) ks) \<le> (1::nat)"
    using Cons.prems by (induction ks) auto
  have "sum_list (map (\<lambda>k. length (filter (\<lambda>s. f s = k) (x # xs))) ks)
        = sum_list (map (\<lambda>k. (if f x = k then 1 else 0) + length (filter (\<lambda>s. f s = k) xs)) ks)"
    by (rule arg_cong[where f = sum_list], rule map_cong) auto
  also have "\<dots> = sum_list (map (\<lambda>k. if f x = k then 1 else 0) ks)
                  + sum_list (map (\<lambda>k. length (filter (\<lambda>s. f s = k) xs)) ks)"
    by (simp add: sum_list_addf)
  also have "\<dots> \<le> 1 + length xs"
    using one Cons.IH[OF Cons.prems] by linarith
  finally show ?case by simp
qed

lemma sum_list_filter_le: "sum_list (map f (filter P xs)) \<le> sum_list (map f xs)" for f :: "'a \<Rightarrow> nat"
  by (induction xs) auto

lemma bucket_count_make_bucket:
  "bucket_count (make_bucket origin d st samples k) =
     length (filter (\<lambda>s. bucket_index origin d (fst s) = k) samples)"
  by (simp add: make_bucket_def Let_def case_prod_unfold)

lemma sum_counts_resample:
  "sum_list (map bucket_count (resample d samples)) \<le> length samples"
proof (cases "samples = []")
  case True
  then show ?thesis by (simp add: resample_def)
next
  case False
  define ts where "ts = map fst samples"
  define st where "st = Min (set ts)"
  define origin where "origin = 86400 * real_of_int \<lfloor>st / 86400\<rfloor>"
  define k0 where "k0 = bucket_index origin d st"
  define k1 where "k1 = bucket_index origin d (Max (set ts))"
  have r: "resample d samples = map (make_bucket origin d st samples) [k0..k1]"
    using False by (simp add: resample_def Let_def ts_def st_def origin_def k0_def k1_def)
  have "sum_list (map bucket_count (resample d samples))
        = sum_list (map (\<lambda>k. length (filter (\<lambda>s. bucket_index origin d (fst s) = k) samples)) [k0..k1])"
    unfolding r by (simp add: comp_def bucket_count_make_bucket)
  also have "\<dots> \<le> length samples"
    by (rule sum_count_distinct) simp
  finally show ?thesis .
qed

text \<open>
  C7. For every sample set and every positive bucket width, each bucket of the
  bucketed-resample output holds at least 3 samples, and the counts of the retained
  buckets sum to at most the number of input samples.
\<close>

theorem resample_counts:
  assumes "0 < d"
  shows "(\<forall>b \<in> set (resample_method d samples). 3 \<le> bucket_count b) \<and>
         sum_list (map bucket_count (resample_method d samples)) \<le> length samples"
proof
  show "\<forall>b \<in> set (resample_method d samples). 3 \<le> bucket_count b"
    by (simp add: resample_method_def)
  have "sum_list (map bucket_count (resample_method d samples))
        \<le> sum_list (map bucket_count (resample d samples))"
    unfolding resample_method_def by (rule sum_list_filter_le)
  also have "\<dots> \<le> length samples" by (rule sum_counts_resample)
  finally show "sum_list (map bucket_count (resample_method d samples)) \<le> length samples" .
qed

theorem resample_counts_witness:
  "0 < (1::real) \<and>
   hd (resample_method 1 [(1/10, 10), (2/10, 20), (3/10, 30), (15/10, 40)])
     \<in> set (resample_method 1 [(1/10, 10), (2/10, 20), (3/10, 30), (15/10, 40)]) \<and>
   3 \<le> bucket_count (hd (resample_method 1 [(1/10, 10), (2/10, 20), (3/10, 30), (15/10, 40)])) \<and>
   sum_list (map bucket_count (resample_method 1 [(1/10, 10), (2/10, 20), (3/10, 30), (15/10, 40)]))
     \<le> length ([(1/10, 10), (2/10, 20), (3/10, 30), (15/10, 40)] :: (real \<times> real) list)"
proof -
  have h: "0 < (1::real)" by simp
  have e: "map bucket_count (resample_method 1 [(1/10, 10), (2/10, 20), (3/10, 30), (15/10, 40)]) = [3]"
    by (simp add: resample_method_def resample_def make_bucket_def bucket_index_def Let_def upto.simps)
  then have ne: "resample_method 1 [(1/10, 10), (2/10, 20), (3/10, 30), (15/10, 40)] \<noteq> []" by auto
  then have mem: "hd (resample_method 1 [(1/10, 10), (2/10, 20), (3/10, 30), (15/10, 40)])
     \<in> set (resample_method 1 [(1/10, 10), (2/10, 20), (3/10, 30), (15/10, 40)])" by (rule hd_in_set)
  note t = resample_counts[OF h, of "[(1/10, 10), (2/10, 20), (3/10, 30), (15/10, 40)]"]
  show ?thesis
    apply (intro conjI)
    apply (rule h)
    apply (rule mem)
    apply (rule bspec[OF conjunct1[OF t] mem])
    apply (rule conjunct2[OF t])
    done
qed

section \<open>Latency smoothing: the local polynomial filter\<close>

lemma positions_Suc:
  "positions (Suc m) = (- real (Suc m)) # positions m @ [real (Suc m)]"
proof -
  have "[- int (Suc m)..int (Suc m)] = (- int (Suc m)) # [- int m..int (Suc m)]"
    by (subst upto_rec1) simp_all
  also have "[- int m..int (Suc m)] = [- int m..int m] @ [int (Suc m)]"
    by (subst upto_rec2) simp_all
  finally show ?thesis by (simp add: positions_def)
qed

lemma positions_0: "positions 0 = [0]"
  by (simp add: positions_def)

lemma length_positions: "length (positions m) = 2 * m + 1"
  by (induction m) (simp_all add: positions_0 positions_Suc)

lemma power_sum_Suc:
  "power_sum (Suc m) k = (- real (Suc m)) ^ k + power_sum m k + real (Suc m) ^ k"
  by (simp add: power_sum_def positions_Suc)

lemma power_sum_0: "power_sum m 0 = 2 * real m + 1"
  by (induction m) (simp_all add: power_sum_Suc, simp add: power_sum_def positions_0)

lemma power_sum_odd: "odd k \<Longrightarrow> power_sum m k = 0"
proof (induction m)
  case 0
  then show ?case by (cases k) (simp_all add: power_sum_def positions_0)
next
  case (Suc m)
  have "(- real (Suc m)) ^ k = - (real (Suc m) ^ k)"
    using Suc.prems by (rule power_minus_odd)
  then show ?case using Suc by (simp only: power_sum_Suc) simp
qed

lemma basis_funs:
  "basis m 0 = (\<lambda>t. 1)"
  "basis m 1 = (\<lambda>t. t)"
  "basis m 2 = (\<lambda>t. t\<^sup>2 - power_sum m 2 / power_sum m 0)"
  "basis m 3 = (\<lambda>t. t ^ 3 - power_sum m 4 / power_sum m 2 * t)"
  by (simp_all add: basis_def fun_eq_iff)

lemma savgol_filter_Inl:
  "window_length \<le> 3 \<or> int (length x) < window_length \<or> even window_length \<Longrightarrow>
   savgol_filter x window_length = Inl ValueError"
  by (simp add: savgol_filter_def)

lemma savgol_filter_Inr:
  assumes "3 < window_length" and "window_length \<le> int (length x)" and "odd window_length"
  shows "\<exists>ys. savgol_filter x window_length = Inr ys \<and> length ys = length x"
  using assms by (simp add: savgol_filter_def Let_def)

lemma basis_Suc_funs:
  "basis m (Suc 0) = (\<lambda>t. t)"
  "basis m (Suc (Suc 0)) = (\<lambda>t. t\<^sup>2 - power_sum m 2 / power_sum m 0)"
  "basis m (Suc (Suc (Suc 0))) = (\<lambda>t. t ^ 3 - power_sum m 4 / power_sum m 2 * t)"
  by (simp_all add: basis_def fun_eq_iff)

lemma positions_2: "positions (Suc (Suc 0)) = [-2, -1, 0, 1, 2]"
  by (simp add: positions_def upto.simps)

lemma power_sums_2:
  "power_sum (Suc (Suc 0)) 0 = 5" "power_sum (Suc (Suc 0)) 2 = 10" "power_sum (Suc (Suc 0)) 4 = 34"
  by (simp_all add: power_sum_def positions_2)

lemma polyfit3_line_example: "polyfit3 [1, 2, 3, 4, 5] t = t + 3"
  by (simp add: polyfit3_def Let_def upt_rec dot_def basis_funs(1) basis_Suc_funs positions_2 power_sums_2)

text \<open>
  For the window length 5 the value of the fit at the window's center is the classical
  Savitzky-Golay combination with the coefficients \<open>(-3, 12, 17, 12, -3) / 35\<close>, the
  ones \<open>savgol_coeffs(5, 3)\<close> returns.
\<close>

lemma savgol_coefficients_window_5:
  "polyfit3 [y0, y1, y2, y3, y4] 0 = (- 3 * y0 + 12 * y1 + 17 * y2 + 12 * y3 - 3 * y4) / 35"
  by (simp add: polyfit3_def Let_def upt_rec dot_def basis_funs(1) basis_Suc_funs positions_2
        power_sums_2 power2_eq_square power3_eq_cube field_simps)

text \<open>
  C4 as stated fails on the code. The guard is \<open>len(http_duration) > window_size\<close>: a
  series exactly as long as the window takes the rolling-average fallback (five samples
  and a window of 5 give a NaN first row, where the filter would return five values).
  And a window of at most 3 makes the filter raise, \<open>polyorder\<close> being 3.
\<close>

theorem savgol_fallback_counterexample:
  "int (length [1, 2, 3, 4, 5::real]) \<ge> 5 \<and>
   savgol_method 5 [1, 2, 3, 4, 5] = Inr [None, Some (3 / 2), Some (5 / 2), Some (7 / 2), Some (9 / 2)] \<and>
   savgol_method 5 [1, 2, 3, 4, 5] = Inr (rolling_mean 2 [1, 2, 3, 4, 5]) \<and>
   savgol_filter [1, 2, 3, 4, 5] 5 = Inr [1, 2, 3, 4, 5] \<and>
   int (length [1, 2, 3, 4, 5::real]) \<ge> 3 \<and>
   savgol_method 3 [1, 2, 3, 4, 5] = Inl ValueError"
proof -
  have r: "rolling_mean 2 [1, 2, 3, 4, 5] = [None, Some (3 / 2), Some (5 / 2), Some (7 / 2), Some (9 / 2)]"
    by (simp add: rolling_mean_def window_slice_def mean_def Let_def upt_rec)
  have l: "length [1, 2, 3, 4, 5::real] = 5" by simp
  have a: "savgol_method 5 [1, 2, 3, 4, 5] = Inr (rolling_mean 2 [1, 2, 3, 4, 5])"
    unfolding savgol_method_def l by simp
  have b: "savgol_filter [1, 2, 3, 4, 5] 5 = Inr [1, 2, 3, 4, 5]"
    by (simp add: savgol_filter_def Let_def upt_rec polyfit3_line_example)
  have c: "savgol_method 3 [1, 2, 3, 4, 5] = Inl ValueError"
    by (simp add: savgol_method_def savgol_filter_def)
  show ?thesis using r a b c by simp
qed


text \<open>
  C4, amended. The local polynomial filter falls back to the rolling average with the
  window \<open>min(10, n // 2)\<close> exactly when the input is not longer than the requested
  window. For every input longer than a window of at least 4 it applies the degree-3
  Savitzky-Golay filter, an even width incremented by 1, and produces one output point
  per input point; for an input longer than a window below 4 the filter raises
  \<open>ValueError\<close>.
\<close>

theorem savgol_fallback_amended:
  "(int (length xs) \<le> w \<longrightarrow>
      savgol_method w xs = Inr (rolling_mean (min 10 (length xs div 2)) xs)) \<and>
   (w < int (length xs) \<and> 4 \<le> w \<longrightarrow>
      (\<exists>ys. savgol_filter xs (if even w then w + 1 else w) = Inr ys \<and>
            savgol_method w xs = Inr (map Some ys) \<and> length ys = length xs)) \<and>
   (w < int (length xs) \<and> w < 4 \<longrightarrow> savgol_method w xs = Inl ValueError)"
proof (intro conjI impI)
  assume "int (length xs) \<le> w"
  then show "savgol_method w xs = Inr (rolling_mean (min 10 (length xs div 2)) xs)"
    by (simp add: savgol_method_def)
next
  assume a: "w < int (length xs) \<and> 4 \<le> w"
  define wl where "wl = (if even w then w + 1 else w)"
  have wl': "(if w mod 2 = 1 then w else w + 1) = wl"
    unfolding wl_def by presburger
  have "3 < wl" "wl \<le> int (length xs)" "odd wl" using a unfolding wl_def by auto
  then obtain ys where ys: "savgol_filter xs wl = Inr ys" "length ys = length xs"
    using savgol_filter_Inr by blast
  have "savgol_method w xs = Inr (map Some ys)"
    using a ys(1) unfolding savgol_method_def wl' by simp
  then show "\<exists>ys. savgol_filter xs wl = Inr ys \<and>
            savgol_method w xs = Inr (map Some ys) \<and> length ys = length xs"
    using ys by blast
next
  assume a: "w < int (length xs) \<and> w < 4"
  define wl where "wl = (if w mod 2 = 1 then w else w + 1)"
  have "wl \<le> 3" using a unfolding wl_def by (simp split: if_splits) presburger
  then have "savgol_filter xs wl = Inl ValueError" by (simp add: savgol_filter_Inl)
  then show "savgol_method w xs = Inl ValueError"
    using a unfolding savgol_method_def wl_def[symmetric] by simp
qed

theorem savgol_fallback_amended_witness:
  "int (length [1, 2, 3, 4, 5::real]) \<le> 5 \<and>
   savgol_method 5 [1, 2, 3, 4, 5] = Inr (rolling_mean (min 10 (length [1, 2, 3, 4, 5::real] div 2)) [1, 2, 3, 4, 5]) \<and>
   4 < int (length [1, 2, 3, 4, 5::real]) \<and> (4::int) \<le> 4 \<and>
   (\<exists>ys. savgol_filter [1, 2, 3, 4, 5] (if even (4::int) then 4 + 1 else 4) = Inr ys \<and>
         savgol_method 4 [1, 2, 3, 4, 5] = Inr (map Some ys) \<and> length ys = length [1, 2, 3, 4, 5::real]) \<and>
   3 < int (length [1, 2, 3, 4, 5::real]) \<and> (3::int) < 4 \<and>
   savgol_method 3 [1, 2, 3, 4, 5] = Inl ValueError"
proof -
  have h1: "int (length [1, 2, 3, 4, 5::real]) \<le> 5" by simp
  have h2: "4 < int (length [1, 2, 3, 4, 5::real]) \<and> (4::int) \<le> 4" by simp
  have h3: "3 < int (length [1, 2, 3, 4, 5::real]) \<and> (3::int) < 4" by simp
  note a = savgol_fallback_amended[of "[1, 2, 3, 4, 5]" 5]
  note b = savgol_fallback_amended[of "[1, 2, 3, 4, 5]" 4]
  note c = savgol_fallback_amended[of "[1, 2, 3, 4, 5]" 3]
  show ?thesis
    apply (intro conjI)
    apply (rule h1)
    apply (rule mp[OF conjunct1[OF a] h1])
    apply (rule conjunct1[OF h2])
    apply (rule conjunct2[OF h2])
    apply (rule mp[OF conjunct1[OF conjunct2[OF b]] h2])
    apply (rule conjunct1[OF h3])
    apply (rule conjunct2[OF h3])
    apply (rule mp[OF conjunct2[OF conjunct2[OF c]] h3])
    done
qed

section \<open>RPS CDF smoothing: proofs\<close>

subsection \<open>Double-precision arithmetic\<close>

text \<open>
  The exponent brackets its argument between two consecutive powers of two.
\<close>

lemma pow2_powi: "pow2 e = 2 powi e"
  by (simp add: pow2_def power_int_def power_one_over inverse_eq_divide)

lemma ilog2_bounds: "0 < n \<Longrightarrow> 2 ^ ilog2 n \<le> n \<and> n < 2 ^ Suc (ilog2 n)"
proof (induction n rule: ilog2.induct)
  case (1 n)
  show ?case
  proof (cases "n < 2")
    case True
    then have "n = 1" using "1.prems" by simp
    then show ?thesis by (simp add: ilog2.simps)
  next
    case False
    then have "0 < n div 2" by simp
    from "1.IH"[OF False this]
    have a: "2 ^ ilog2 (n div 2) \<le> n div 2" and b: "n div 2 < 2 ^ Suc (ilog2 (n div 2))" by simp_all
    have s: "ilog2 n = Suc (ilog2 (n div 2))" using False by (subst ilog2.simps) simp
    have "2 * 2 ^ ilog2 (n div 2) \<le> n" using a by linarith
    moreover have "n < 2 * 2 ^ Suc (ilog2 (n div 2))" using b by linarith
    ultimately show ?thesis unfolding s by simp
  qed
qed

lemma exponent_bounds:
  assumes "0 < x"
  shows "2 powi exponent x \<le> x" and "x < 2 powi (exponent x + 1)"
proof -
  have "2 powi exponent x \<le> x \<and> x < 2 powi (exponent x + 1)"
  proof (cases "1 \<le> x")
    case True
    define n where "n = nat \<lfloor>x\<rfloor>"
    have n: "0 < n" using True unfolding n_def by simp
    have e: "exponent x = int (ilog2 n)" using True unfolding exponent_def n_def by simp
    have nx: "real n \<le> x" "x < real n + 1" using True unfolding n_def by (simp_all add: of_nat_nat) 
    from ilog2_bounds[OF n] have a: "2 ^ ilog2 n \<le> n" and b: "n + 1 \<le> 2 ^ Suc (ilog2 n)" by simp_all
    have "real (2 ^ ilog2 n) \<le> real n" using a by (simp only: of_nat_le_iff)
    then have "(2::real) ^ ilog2 n \<le> real n" by simp
    moreover have "real (n + 1) \<le> real (2 ^ Suc (ilog2 n))" using b by (simp only: of_nat_le_iff)
    then have "real n + 1 \<le> (2::real) ^ Suc (ilog2 n)" by simp
    moreover have "2 powi int (ilog2 n) = (2::real) ^ ilog2 n" by simp
    moreover have "2 powi (int (ilog2 n) + 1) = (2::real) ^ Suc (ilog2 n)"
      by (simp add: power_int_add)
    ultimately show ?thesis unfolding e using nx by linarith
  next
    case False
    define N where "N = nat \<lceil>1 / x\<rceil>"
    define k where "k = Suc (ilog2 (N - 1))"
    have x1: "x < 1" using False by simp
    then have "1 < 1 / x" using assms by simp
    then have N2: "2 \<le> N" unfolding N_def by (simp add: le_nat_iff le_ceiling_iff) 
    have e: "exponent x = - int k" using False unfolding exponent_def N_def k_def by simp
    have Nx: "1 / x \<le> real N" "real N - 1 < 1 / x"
      unfolding N_def using assms by (simp_all add: of_nat_nat ceiling_correct) 
    have n: "0 < N - 1" using N2 by simp
    from ilog2_bounds[OF n] have a: "2 ^ ilog2 (N - 1) \<le> N - 1"
      and b0: "N - 1 < 2 ^ Suc (ilog2 (N - 1))" by blast+
    have b: "N \<le> 2 ^ k" unfolding k_def using b0 N2 by linarith
    have "real (2 ^ ilog2 (N - 1)) \<le> real (N - 1)" using a by (simp only: of_nat_le_iff)
    then have a': "(2::real) ^ ilog2 (N - 1) \<le> real N - 1" using N2 by (simp add: of_nat_diff)
    have "real N \<le> real (2 ^ k)" using b by (simp only: of_nat_le_iff)
    then have b': "real N \<le> (2::real) ^ k" by simp
    have u: "1 / x \<le> 2 ^ k" using Nx(1) b' by linarith
    have l: "2 ^ ilog2 (N - 1) < 1 / x" using Nx(2) a' by linarith
    have "1 / 2 ^ k \<le> x" using u assms by (simp add: field_simps)
    moreover have "x < 1 / 2 ^ ilog2 (N - 1)" using l assms by (simp add: field_simps)
    moreover have "2 powi (- int k) = 1 / (2::real) ^ k" by (simp add: power_int_minus_divide)
    moreover have "2 powi (- int k + 1) = 1 / (2::real) ^ ilog2 (N - 1)"
      unfolding k_def by (simp add: power_int_minus_divide power_int_add field_simps)
    ultimately show ?thesis unfolding e by simp
  qed
  then show "2 powi exponent x \<le> x" and "x < 2 powi (exponent x + 1)" by simp_all
qed

lemma exponent_ge:
  assumes "0 < x" and "2 powi k \<le> x"
  shows "k \<le> exponent x"
proof (rule ccontr)
  assume "\<not> k \<le> exponent x"
  then have "exponent x + 1 \<le> k" by simp
  then have "(2::real) powi (exponent x + 1) \<le> 2 powi k"
    by (intro power_int_increasing) simp_all
  then show False using exponent_bounds(2)[OF assms(1)] assms(2) by linarith
qed

text \<open>
  Rounding to the nearest integer moves a number by at most one half, keeps integers and
  is bounded by every integer above its argument.
\<close>

lemma round_even_of_int: "round_even (real_of_int z) = z"
  by (simp add: round_even_def)

lemma round_even_le:
  assumes "q \<le> real_of_int N"
  shows "round_even q \<le> N"
proof (cases "q = real_of_int N")
  case True
  then show ?thesis by (simp add: round_even_of_int)
next
  case False
  then have "q < real_of_int N" using assms by simp
  then have "\<lfloor>q\<rfloor> < N" by (simp add: floor_less_iff)
  then have "\<lfloor>q\<rfloor> + 1 \<le> N" by simp
  moreover have "round_even q \<le> \<lfloor>q\<rfloor> + 1" by (simp add: round_even_def Let_def)
  ultimately show ?thesis by linarith
qed

lemma round_even_err: "\<bar>real_of_int (round_even q) - q\<bar> \<le> 1 / 2"
proof -
  have "real_of_int \<lfloor>q\<rfloor> \<le> q" "q < real_of_int \<lfloor>q\<rfloor> + 1" by linarith+
  then show ?thesis by (simp add: round_even_def Let_def)
qed

lemma round_even_nonneg: "0 \<le> q \<Longrightarrow> 0 \<le> round_even q"
  by (simp add: round_even_def Let_def)

text \<open>
  Sign, and the values that \<open>double\<close> keeps: naturals below \<open>2 ^ 53\<close> and powers of two.
\<close>

lemma double_0: "double 0 = 0"
  by (simp add: double_def)

lemma double_pos:
  "0 < x \<Longrightarrow>
   double x = real_of_int (round_even (x / pow2 (max (exponent x) (- 1022) - 52)))
                * pow2 (max (exponent x) (- 1022) - 52)"
  by (simp add: double_def Let_def)

lemma double_neg: "double (- x) = - double x"
  by (simp add: double_def Let_def sgn_minus)

lemma double_nonneg: "0 \<le> x \<Longrightarrow> 0 \<le> double x"
proof (cases "x = 0")
  case True
  then show ?thesis by (simp add: double_0)
next
  case False
  assume "0 \<le> x"
  then have x: "0 < x" using False by simp
  have u: "0 < pow2 (max (exponent x) (- 1022) - 52)" unfolding pow2_powi by simp
  have "0 \<le> x / pow2 (max (exponent x) (- 1022) - 52)" using x u by simp
  then have "0 \<le> round_even (x / pow2 (max (exponent x) (- 1022) - 52))"
    by (rule round_even_nonneg)
  then show ?thesis unfolding double_pos[OF x] using u by simp
qed

lemma double_nonpos: "x \<le> 0 \<Longrightarrow> double x \<le> 0"
  using double_nonneg[of "- x"] by (simp add: double_neg)

lemma double_nat:
  assumes "k < 2 ^ 53"
  shows "double (real k) = real k"
proof (cases "k = 0")
  case True
  then show ?thesis by (simp add: double_0)
next
  case False
  then have k: "0 < k" by simp
  define e where "e = ilog2 k"
  define u where "u = pow2 (max (exponent (real k)) (- 1022) - 52)"
  have kr: "1 \<le> real k" using k by simp
  have "exponent (real k) = int e"
    using kr unfolding exponent_def e_def by simp
  then have ex: "max (exponent (real k)) (- 1022) = int e" by simp
  from ilog2_bounds[OF k] have lo: "2 ^ e \<le> k" unfolding e_def by simp
  have "(2::nat) ^ e < 2 ^ 53" by (rule le_less_trans[OF lo assms])
  then have "e < 53" by (rule power_less_imp_less_exp[rotated]) simp
  then have e52: "e \<le> 52" by simp
  have i: "int e - 52 = - int (52 - e)" using e52 by simp
  have "pow2 (int e - 52) = 2 powi (- int (52 - e))" unfolding pow2_powi i ..
  also have "\<dots> = 1 / 2 ^ (52 - e)" by (simp add: power_int_minus_divide)
  finally have u: "u = 1 / 2 ^ (52 - e)" unfolding u_def ex .
  have q: "real k / u = real_of_int (int k * 2 ^ (52 - e))"
    unfolding u by simp
  have r: "round_even (real k / u) = int k * 2 ^ (52 - e)"
    unfolding q by (rule round_even_of_int)
  have kp: "0 < real k" using k by simp
  have "double (real k) = real_of_int (round_even (real k / u)) * u"
    unfolding u_def by (rule double_pos[OF kp])
  also have "\<dots> = real_of_int (int k * 2 ^ (52 - e)) * u"
    unfolding r ..
  also have "\<dots> = real k" unfolding u by simp
  finally show ?thesis .
qed

lemma double_1: "double 1 = 1"
  using double_nat[of 1] by simp

lemma double_twice_half:
  assumes "m < 2 ^ 52"
  shows "double (double (real m + real m) / 2) = real m"
proof -
  have "m + m < 2 ^ 53" using assms by simp
  then have "double (real (m + m)) = real (m + m)" by (rule double_nat)
  then have "double (real m + real m) = real m + real m" by simp
  moreover have "double (real m) = real m" using assms by (intro double_nat) simp
  ultimately show ?thesis by simp
qed

lemma double_pow2: "double (2 ^ k) = 2 ^ k"
proof -
  have p: "2 powi int k = (2::real) ^ k" by simp
  have xp: "0 < (2::real) ^ k" by simp
  have "int k \<le> exponent (2 ^ k)" by (rule exponent_ge[OF xp]) (simp add: p)
  moreover have "exponent (2 ^ k) \<le> int k"
  proof (rule ccontr)
    assume "\<not> exponent (2 ^ k) \<le> int k"
    then have "int k + 1 \<le> exponent (2 ^ k)" by simp
    then have "(2::real) powi (int k + 1) \<le> 2 powi exponent (2 ^ k)"
      by (intro power_int_increasing) simp_all
    moreover have "(2::real) powi (int k + 1) = 2 * 2 ^ k" by (simp add: power_int_add)
    ultimately show False using exponent_bounds(1)[OF xp] xp by linarith
  qed
  ultimately have e: "exponent ((2::real) ^ k) = int k" by simp
  have m: "max (int k) (- 1022) = int k" by simp
  have q: "(2::real) ^ k / pow2 (int k - 52) = real_of_int (2 ^ 52)"
    unfolding pow2_powi by (simp add: power_int_diff)
  show ?thesis
    unfolding double_pos[OF xp] e m q round_even_of_int pow2_powi
    by (simp add: power_int_diff round_even_def)
qed

text \<open>
  Upper bounds: rounding does not cross a power of two, and a proper fraction \<open>k / n\<close>
  with \<open>n < 2 ^ 53\<close> does not round up to 1.
\<close>

lemma double_less_1:
  assumes x0: "0 \<le> x" and x1: "x \<le> 1 - 1 / 2 ^ 53"
  shows "double x < 1"
proof (cases "x = 0")
  case True
  then show ?thesis by (simp add: double_0)
next
  case False
  then have x: "0 < x" using x0 by simp
  define e where "e = max (exponent x) (- 1022)"
  define u where "u = pow2 (e - 52)"
  have upos: "0 < u" unfolding u_def pow2_powi by simp
  have "0 < 1 / (2::real) ^ 53" by simp
  then have lt1: "x < 1" using x1 by linarith
  from exponent_bounds[OF x] have lo: "2 powi exponent x \<le> x"
    and hi0: "x < 2 powi (exponent x + 1)" by simp_all
  have "2 powi (exponent x + 1) \<le> (2::real) powi (e + 1)"
    unfolding e_def by (intro power_int_increasing) simp_all
  then have hi: "x < 2 powi (e + 1)" using hi0 by linarith
  have "exponent x < 0"
  proof (rule ccontr)
    assume "\<not> exponent x < 0"
    then have "2 powi exponent x = (2::real) ^ nat (exponent x)" by (simp add: power_int_def)
    moreover have "1 \<le> (2::real) ^ nat (exponent x)" by (rule one_le_power) simp
    ultimately show False using lo lt1 by linarith
  qed
  then have e0: "e < 0" unfolding e_def by simp
  have u53: "2 powi (e + 1) = 2 ^ 53 * u"
    unfolding u_def pow2_powi by (simp add: power_int_diff power_int_add)
  have d: "double x = real_of_int (round_even (x / u)) * u"
    unfolding u_def e_def by (rule double_pos[OF x])
  show ?thesis
  proof (cases "e = - 1")
    case True
    then have uv: "u = 1 / 2 ^ 53" unfolding u_def by (simp add: pow2_def)
    have "x / u \<le> real_of_int (2 ^ 53 - 1)" using x1 unfolding uv by (simp add: field_simps)
    then have "round_even (x / u) \<le> 2 ^ 53 - 1" by (rule round_even_le)
    then have "real_of_int (round_even (x / u)) \<le> real_of_int (2 ^ 53 - 1)"
      by (simp only: of_int_le_iff)
    then have "real_of_int (round_even (x / u)) \<le> 2 ^ 53 - 1" by simp
    then have "double x \<le> (2 ^ 53 - 1) * u" unfolding d using upos by (simp add: mult_right_mono)
    also have "\<dots> < 1" unfolding uv by simp
    finally show ?thesis .
  next
    case False
    then have e2: "e + 1 \<le> - 1" using e0 by simp
    have "x / u \<le> real_of_int (2 ^ 53)" using hi upos unfolding u53 by (simp add: field_simps)
    then have "round_even (x / u) \<le> 2 ^ 53" by (rule round_even_le)
    then have "real_of_int (round_even (x / u)) \<le> real_of_int (2 ^ 53)"
      by (simp only: of_int_le_iff)
    then have "real_of_int (round_even (x / u)) \<le> 2 ^ 53" by simp
    then have "double x \<le> 2 ^ 53 * u" unfolding d using upos by (simp add: mult_right_mono)
    also have "\<dots> = 2 powi (e + 1)" unfolding u53 ..
    also have "\<dots> \<le> 2 powi (- 1)" using e2 by (intro power_int_increasing) simp_all
    also have "\<dots> < (1::real)" by (simp add: power_int_minus)
    finally show ?thesis .
  qed
qed

lemma double_le_pow2:
  assumes x0: "0 \<le> x" and xk: "x \<le> 2 ^ k"
  shows "double x \<le> 2 ^ k"
proof (cases "x = 0 \<or> x = 2 ^ k")
  case True
  then show ?thesis by (auto simp add: double_0 double_pow2)
next
  case False
  then have xp: "0 < x" and xl: "x < 2 ^ k" using x0 xk by simp_all
  define e where "e = max (exponent x) (- 1022)"
  define u where "u = pow2 (e - 52)"
  have upos: "0 < u" unfolding u_def pow2_powi by simp
  have "exponent x < int k"
  proof (rule ccontr)
    assume "\<not> exponent x < int k"
    then have "(2::real) powi int k \<le> 2 powi exponent x"
      by (intro power_int_increasing) simp_all
    then show False using exponent_bounds(1)[OF xp] xl by simp
  qed
  then have ek: "e + 1 \<le> int k" unfolding e_def by simp
  have "2 powi (exponent x + 1) \<le> (2::real) powi (e + 1)"
    unfolding e_def by (intro power_int_increasing) simp_all
  then have hi: "x < 2 powi (e + 1)" using exponent_bounds(2)[OF xp] by linarith
  have u53: "2 powi (e + 1) = 2 ^ 53 * u"
    unfolding u_def pow2_powi by (simp add: power_int_diff power_int_add)
  have d: "double x = real_of_int (round_even (x / u)) * u"
    unfolding u_def e_def by (rule double_pos[OF xp])
  have "x / u \<le> real_of_int (2 ^ 53)" using hi upos unfolding u53 by (simp add: field_simps)
  then have "round_even (x / u) \<le> 2 ^ 53" by (rule round_even_le)
  then have "real_of_int (round_even (x / u)) \<le> real_of_int (2 ^ 53)"
    by (simp only: of_int_le_iff)
  then have "real_of_int (round_even (x / u)) \<le> 2 ^ 53" by simp
  then have "double x \<le> 2 ^ 53 * u" unfolding d using upos by (simp add: mult_right_mono)
  also have "\<dots> = 2 powi (e + 1)" unfolding u53 ..
  also have "\<dots> \<le> 2 powi int k" using ek by (intro power_int_increasing) simp_all
  also have "\<dots> = 2 ^ k" by simp
  finally show ?thesis .
qed

lemma double_ratio_less_1:
  assumes n: "n < 2 ^ 53" and k: "k < n"
  shows "double (real k / real n) < 1"
proof -
  have "k + 1 \<le> n" using k by simp
  then have "real (k + 1) \<le> real n" by (simp only: of_nat_le_iff)
  then have kn: "real k \<le> real n - 1" by simp
  have np: "0 < real n" using k by simp
  have "real n < real ((2::nat) ^ 53)" using n by (simp only: of_nat_less_iff)
  then have n53: "real n \<le> 2 ^ 53" by simp
  have "real k / real n \<le> (real n - 1) / real n" using kn np by (simp add: divide_right_mono)
  also have "\<dots> = 1 - 1 / real n" using np by (simp add: field_simps)
  also have "\<dots> \<le> 1 - 1 / 2 ^ 53" using n53 np by (simp add: field_simps)
  finally have "real k / real n \<le> 1 - 1 / 2 ^ 53" .
  moreover have "0 \<le> real k / real n" by simp
  ultimately show ?thesis by (rule double_less_1[rotated])
qed

lemma double_ratio_1_iff:
  assumes n: "0 < n" "n < 2 ^ 53" and k: "k \<le> n"
  shows "double (real k / real n) = 1 \<longleftrightarrow> k = n"
proof
  assume "k = n"
  then show "double (real k / real n) = 1" using n(1) by (simp add: double_1)
next
  assume d: "double (real k / real n) = 1"
  show "k = n"
  proof (rule ccontr)
    assume "k \<noteq> n"
    then have "k < n" using k by simp
    then have "double (real k / real n) < 1" by (rule double_ratio_less_1[OF n(2)])
    then show False using d by simp
  qed
qed

text \<open>
  The relative error of one rounding in the normal range is at most \<open>2 ^ (- 53)\<close>.
\<close>

lemma double_rel_err:
  assumes x: "2 powi (- 1022) \<le> x"
  shows "\<bar>double x - x\<bar> \<le> x / 2 ^ 53"
proof -
  have "0 < (2::real) powi (- 1022)" by simp
  then have xp: "0 < x" using x by linarith
  define e where "e = exponent x"
  define u where "u = pow2 (e - 52)"
  have "- 1022 \<le> e" unfolding e_def by (rule exponent_ge[OF xp x])
  then have m: "max (exponent x) (- 1022) = e" unfolding e_def by simp
  have upos: "0 < u" unfolding u_def pow2_powi by simp
  have d: "double x = real_of_int (round_even (x / u)) * u"
    unfolding double_pos[OF xp] m u_def ..
  have "double x - x = (real_of_int (round_even (x / u)) - x / u) * u"
    unfolding d using upos by (simp add: field_simps)
  then have "\<bar>double x - x\<bar> = \<bar>real_of_int (round_even (x / u)) - x / u\<bar> * u"
    using upos by (simp add: abs_mult)
  also have "\<dots> \<le> (1 / 2) * u"
    by (rule mult_right_mono[OF round_even_err]) (use upos in simp)
  also have "\<dots> = 2 powi e / 2 ^ 53"
    unfolding u_def pow2_powi by (simp add: power_int_diff)
  also have "\<dots> \<le> x / 2 ^ 53"
    using exponent_bounds(1)[OF xp] unfolding e_def by (simp add: divide_right_mono)
  finally show ?thesis .
qed

lemma double_rel_err_normal:
  assumes "1 / 2 ^ 100 \<le> x"
  shows "\<bar>double x - x\<bar> \<le> x * (1 / 2 ^ 53)" and "x / 2 \<le> double x"
proof -
  have "(2::real) powi (- 1022) \<le> 1 / 2 ^ 100" by (simp add: power_int_minus_divide)
  then have "2 powi (- 1022) \<le> x" using assms by linarith
  then have e: "\<bar>double x - x\<bar> \<le> x / 2 ^ 53" by (rule double_rel_err)
  then show "\<bar>double x - x\<bar> \<le> x * (1 / 2 ^ 53)" by simp
  have "0 < (1::real) / 2 ^ 100" by simp
  then have xp: "0 < x" using assms by linarith
  have "x / 2 ^ 53 \<le> x / 2" using xp by (simp add: field_simps)
  then show "x / 2 \<le> double x" using e by linarith
qed

text \<open>
  Evaluation of \<open>double\<close> at concrete rationals.
\<close>

lemmas double_eval = double_def exponent_def ilog2.simps pow2_def round_even_def Let_def

lemma double_examples:
  "double (1/2) = 1/2"
  "double (14/10) = 3152519739159347 / 2251799813685248"
  "double (29/100) = 5224175567749775 / 18014398509481984"
  "double (9/10) = 8106479329266893 / 9007199254740992"
  by (simp_all add: double_eval)

text \<open>
  Propagation of the rounding errors through \<open>i * step + start\<close> and through the
  midpoint of two edges; \<open>h\<close> is the relative error of one operation.
\<close>

lemma edge_error_chain:
  fixes t a p y e h :: real
  assumes h: "0 \<le> h" "h \<le> 1 / 64" and t: "0 \<le> t" and a: "0 \<le> a"
    and p: "\<bar>p - t\<bar> \<le> t * h" and y: "\<bar>y - p\<bar> \<le> p * h"
    and e: "\<bar>e - (y + a)\<bar> \<le> (y + a) * h"
  shows "\<bar>e - (t + a)\<bar> \<le> (t + a) * (4 * h)"
proof -
  define T where "T = t * h"
  have T0: "0 \<le> T" unfolding T_def using t h by simp
  have Th: "T * h \<le> T / 64" using mult_left_mono[OF h(2) T0] by simp
  have ah: "0 \<le> a * h" using a h by simp
  have p1: "p \<le> t + T" using p unfolding T_def by linarith
  have "p * h \<le> (t + T) * h" by (rule mult_right_mono[OF p1 h(1)])
  also have "\<dots> = T + T * h" unfolding T_def by (simp add: algebra_simps)
  finally have ph: "p * h \<le> T + T / 64" using Th by linarith
  have yt: "\<bar>y - t\<bar> \<le> 3 * T - T / 2"
    using y p ph T0 unfolding T_def[symmetric] by linarith
  then have "y + a \<le> t + 3 * T + a" using T0 by linarith
  then have "(y + a) * h \<le> (t + 3 * T + a) * h" by (rule mult_right_mono[OF _ h(1)])
  also have "\<dots> = T + 3 * (T * h) + a * h" unfolding T_def by (simp add: algebra_simps)
  finally have "(y + a) * h \<le> T + 3 * (T / 64) + a * h" using Th by linarith
  then have "\<bar>e - (t + a)\<bar> \<le> 4 * T + 4 * (a * h)" using e yt T0 ah by linarith
  also have "\<dots> = (t + a) * (4 * h)" unfolding T_def by (simp add: algebra_simps)
  finally show ?thesis .
qed

lemma centre_error_chain:
  fixes E1 E2 e1 e2 s c h :: real
  assumes h: "0 \<le> h" "h \<le> 1 / 64" and E: "0 \<le> E1" "0 \<le> E2"
    and e1: "\<bar>e1 - E1\<bar> \<le> E1 * (4 * h)" and e2: "\<bar>e2 - E2\<bar> \<le> E2 * (4 * h)"
    and s: "\<bar>s - (e1 + e2)\<bar> \<le> (e1 + e2) * h"
    and c: "\<bar>c - s / 2\<bar> \<le> s / 2 * h"
  shows "\<bar>c - (E1 + E2) / 2\<bar> \<le> (E1 + E2) / 2 * (8 * h)"
proof -
  define U where "U = (E1 + E2) * h"
  have U0: "0 \<le> U" unfolding U_def using E h by simp
  have Uh: "U * h \<le> U / 64" using mult_left_mono[OF h(2) U0] by simp
  have "E1 * (4 * h) + E2 * (4 * h) = 4 * U" unfolding U_def by (simp add: algebra_simps)
  then have ee: "\<bar>(e1 + e2) - (E1 + E2)\<bar> \<le> 4 * U" using e1 e2 by linarith
  then have "e1 + e2 \<le> E1 + E2 + 4 * U" by linarith
  then have "(e1 + e2) * h \<le> (E1 + E2 + 4 * U) * h" by (rule mult_right_mono[OF _ h(1)])
  also have "\<dots> = U + 4 * (U * h)" unfolding U_def by (simp add: algebra_simps)
  finally have eh: "(e1 + e2) * h \<le> U + 4 * (U / 64)" using Uh by linarith
  have ss: "\<bar>s - (E1 + E2)\<bar> \<le> 6 * U" using s ee eh U0 by linarith
  then have "s \<le> E1 + E2 + 6 * U" by linarith
  then have "s / 2 \<le> (E1 + E2 + 6 * U) / 2" by simp
  then have "s / 2 * h \<le> (E1 + E2 + 6 * U) / 2 * h" by (rule mult_right_mono[OF _ h(1)])
  also have "\<dots> = U / 2 + 3 * (U * h)" unfolding U_def by (simp add: algebra_simps)
  finally have sh: "s / 2 * h \<le> U / 2 + 3 * (U / 64)" using Uh by linarith
  have a1: "\<bar>c - s / 2\<bar> \<le> U / 2 + 3 * (U / 64)" using c sh by (rule order_trans)
  have "\<bar>s / 2 - (E1 + E2) / 2\<bar> = \<bar>s - (E1 + E2)\<bar> / 2" by (simp add: field_simps)
  then have a2: "\<bar>s / 2 - (E1 + E2) / 2\<bar> \<le> 3 * U" using ss by simp
  have "\<bar>c - (E1 + E2) / 2\<bar> \<le> 4 * U" using a1 a2 U0 by linarith
  also have "\<dots> = (E1 + E2) / 2 * (8 * h)" unfolding U_def by (simp add: algebra_simps)
  finally show ?thesis .
qed

subsection \<open>Evenly spaced points\<close>

lemma length_linspace: "length (linspace a b num) = num"
  by (simp add: linspace_def)

lemma nth_linspace:
  "num \<noteq> 1 \<Longrightarrow> i < num \<Longrightarrow> linspace a b num ! i = a + real i * ((b - a) / real (num - 1))"
  by (simp add: linspace_def)

lemma length_linspace_double: "length (linspace_double a b num) = num"
  by (simp add: linspace_double_def Let_def)

lemma nth_linspace_double:
  assumes "i < num - 1"
  shows "linspace_double a b num ! i =
           double ((if double (double (b - a) / real (num - 1)) = 0
                    then double (double (real i / real (num - 1)) * double (b - a))
                    else double (real i * double (double (b - a) / real (num - 1)))) + a)"
proof -
  have n: "1 < num" "0 < num - 1" "i < num" "i \<noteq> num - 1" using assms by simp_all
  show ?thesis using n by (simp add: linspace_double_def Let_def)
qed

lemma linspace_double_first:
  assumes "1 < num" and "double a = a"
  shows "linspace_double a b num ! 0 = a"
proof -
  have n: "num - 1 \<noteq> 0" "0 < num" "0 < num - 1" using assms(1) by simp_all
  show ?thesis
    using n assms(2) by (simp add: linspace_double_def Let_def double_0)
qed

lemma linspace_double_last:
  assumes "1 < num"
  shows "linspace_double a b num ! (num - 1) = b"
  using assms by (simp add: linspace_double_def Let_def)

lemma linspace_double_const:
  assumes "double a = a" and "i < num"
  shows "linspace_double a a num ! i = a"
proof -
  define y where "y = map (\<lambda>v. double (v + a)) (map (\<lambda>i::nat. 0::real) [0..<num])"
  have y: "y ! i = a" "length y = num" using assms unfolding y_def by simp_all
  have l: "linspace_double a a num = (if 1 < num then y[num - 1 := a] else y)"
    unfolding y_def by (simp add: linspace_double_def Let_def double_0)
  show ?thesis
  proof (cases "i = num - 1")
    case True
    then show ?thesis unfolding l using y assms(2) by (cases "1 < num") simp_all
  next
    case False
    then show ?thesis unfolding l using y by simp
  qed
qed

text \<open>
  Between integer end points below \<open>2 ^ 52\<close> and with at most \<open>2 ^ 62\<close> intervals, every inner
  point of \<open>linspace_double\<close> is within a relative error of \<open>2 ^ (- 51)\<close> of the exact point.
\<close>

lemma linspace_double_nat_err:
  fixes a b nb i :: nat
  assumes ab: "a < b" and b: "b < 2 ^ 52" and nb: "nb \<le> 2 ^ 62" and i: "0 < i" "i < nb"
  shows "\<bar>linspace_double (real a) (real b) (nb + 1) ! i
            - (real a + real i * (real (b - a) / real nb))\<bar>
           \<le> (real a + real i * (real (b - a) / real nb)) * (4 * (1 / 2 ^ 53))"
    and "1 / 2 ^ 62 \<le> real (b - a) / real nb"
proof -
  define d where "d = real (b - a)"
  define s0 where "s0 = d / real nb"
  define step where "step = double s0"
  define p where "p = real i * step"
  define y where "y = double p"
  have nbp: "0 < real nb" using i by simp
  have "real nb \<le> real ((2::nat) ^ 62)" using nb by (simp only: of_nat_le_iff)
  then have nb62: "real nb \<le> 2 ^ 62" by simp
  have d1: "1 \<le> d" unfolding d_def using ab by simp
  have dd: "real b - real a = d" unfolding d_def using ab by (simp add: of_nat_diff)
  have "b - a < 2 ^ 53" using b by simp
  then have dbl_d: "double d = d" unfolding d_def by (rule double_nat)
  have "1 / 2 ^ 62 \<le> 1 / real nb" using nbp nb62 by (simp add: field_simps)
  also have "\<dots> \<le> d / real nb" using d1 nbp by (simp add: divide_right_mono)
  finally have s62: "1 / 2 ^ 62 \<le> s0" unfolding s0_def .
  show "1 / 2 ^ 62 \<le> real (b - a) / real nb" using s62 unfolding s0_def d_def .
  have s100: "1 / 2 ^ 100 \<le> s0" using s62 by simp
  have st: "\<bar>step - s0\<bar> \<le> s0 * (1 / 2 ^ 53)" and st2: "s0 / 2 \<le> step"
    unfolding step_def by (rule double_rel_err_normal[OF s100])+
  have stp: "0 < step" using st2 s62 by simp
  have i1: "1 \<le> real i" using i(1) by simp
  have "1 * step \<le> real i * step" by (rule mult_right_mono[OF i1]) (use stp in simp)
  moreover have "1 / 2 ^ 63 \<le> s0 / 2" using s62 by simp
  ultimately have p63: "1 / 2 ^ 63 \<le> p" unfolding p_def using st2 by linarith
  then have p100: "1 / 2 ^ 100 \<le> p" by simp
  have yp: "\<bar>y - p\<bar> \<le> p * (1 / 2 ^ 53)" and y2: "p / 2 \<le> y"
    unfolding y_def by (rule double_rel_err_normal[OF p100])+
  have "1 / 2 ^ 64 \<le> p / 2" using p63 by simp
  then have "1 / 2 ^ 64 \<le> y" using y2 by linarith
  then have "1 / 2 ^ 100 \<le> y + real a" by simp
  then have eq: "\<bar>double (y + real a) - (y + real a)\<bar> \<le> (y + real a) * (1 / 2 ^ 53)"
    by (rule double_rel_err_normal)
  have "\<bar>p - real i * s0\<bar> = real i * \<bar>step - s0\<bar>"
    unfolding p_def by (simp add: abs_mult flip: right_diff_distrib)
  also have "\<dots> \<le> real i * (s0 * (1 / 2 ^ 53))"
    by (rule mult_left_mono[OF st]) simp
  finally have pt: "\<bar>p - real i * s0\<bar> \<le> real i * s0 * (1 / 2 ^ 53)" by simp
  have t0: "0 \<le> real i * s0" using s62 by simp
  have "\<bar>double (y + real a) - (real i * s0 + real a)\<bar>
          \<le> (real i * s0 + real a) * (4 * (1 / 2 ^ 53))"
    by (rule edge_error_chain[OF _ _ t0 _ pt yp eq]) simp_all
  moreover have "linspace_double (real a) (real b) (nb + 1) ! i = double (y + real a)"
  proof -
    have "i < nb + 1 - 1" using i by simp
    from nth_linspace_double[OF this, of "real a" "real b"]
    show ?thesis unfolding dd dbl_d y_def p_def step_def s0_def using stp
      by (simp add: step_def s0_def)
  qed
  ultimately show "\<bar>linspace_double (real a) (real b) (nb + 1) ! i
            - (real a + real i * (real (b - a) / real nb))\<bar>
           \<le> (real a + real i * (real (b - a) / real nb)) * (4 * (1 / 2 ^ 53))"
    unfolding s0_def d_def by (simp add: add.commute)
qed

subsection \<open>Binned method\<close>

lemma num_bins_ge: "20 \<le> num_bins n sf"
  by (simp add: num_bins_def)

lemma num_bins_le:
  assumes len: "n < 2 ^ 53" and sf: "\<bar>sf\<bar> \<le> 512"
  shows "num_bins n sf \<le> 2 ^ 62"
proof (cases "0 \<le> real n * sf")
  case True
  have "real n < real ((2::nat) ^ 53)" using len by (simp only: of_nat_less_iff)
  then have n: "real n \<le> 2 ^ 53" by simp
  have "real n * sf \<le> real n * \<bar>sf\<bar>" by (simp add: mult_left_mono)
  also have "\<dots> \<le> 2 ^ 53 * 512" by (rule mult_mono[OF n sf]) simp_all
  also have "\<dots> = 2 ^ 62" by simp
  finally have "double (real n * sf) \<le> 2 ^ 62" by (rule double_le_pow2[OF True])
  moreover have "0 \<le> double (real n * sf)" by (rule double_nonneg[OF True])
  ultimately have "py_int (double (real n * sf)) \<le> 2 ^ 62"
    by (simp add: py_int_def floor_le_iff)
  then show ?thesis unfolding num_bins_def by (simp add: nat_le_iff)
next
  case False
  then have "double (real n * sf) \<le> 0" by (intro double_nonpos) simp
  then have "py_int (double (real n * sf)) \<le> 0"
    by (simp add: py_int_def ceiling_le_iff floor_le_iff)
  then show ?thesis unfolding num_bins_def by (simp add: nat_le_iff)
qed

lemma num_bins_examples:
  "num_bins 10 (1/2) = 20"
  "num_bins 43 (1/2) = 21"
  "num_bins 2 (1/2) = 20"
  "num_bins 15 (3152519739159347 / 2251799813685248) = 21"
  "num_bins 100 (5224175567749775 / 18014398509481984) = 28"
  by (simp_all add: num_bins_def py_int_def double_eval)

lemma length_bin_edges:
  "length (bin_edges sorted_rps sf) = num_bins (length sorted_rps) sf + 1"
  by (simp add: bin_edges_def length_linspace_double)

lemma bin_edges_sort: "bin_edges (sort rps) sf = bin_edges rps sf"
  by (simp add: bin_edges_def)

lemma length_bin_centers:
  "length (bin_centers sorted_rps sf) = num_bins (length sorted_rps) sf"
  by (simp add: bin_centers_def Let_def length_bin_edges)

lemma nth_bin_centers:
  assumes i: "i < num_bins (length sorted_rps) sf"
  shows "bin_centers sorted_rps sf ! i =
           double (double (bin_edges sorted_rps sf ! i + bin_edges sorted_rps sf ! (i + 1)) / 2)"
proof -
  define e where "e = bin_edges sorted_rps sf"
  have le: "length e = num_bins (length sorted_rps) sf + 1"
    unfolding e_def by (rule length_bin_edges)
  have "bin_centers sorted_rps sf ! i = double (double (butlast e ! i + tl e ! i) / 2)"
    using i le by (simp add: bin_centers_def Let_def e_def)
  also have "butlast e ! i = e ! i" using i le by (simp add: nth_butlast)
  also have "tl e ! i = e ! (i + 1)" using i le by (simp add: nth_tl)
  finally show ?thesis unfolding e_def .
qed

lemma length_binned_method:
  "length (binned_method rps sf) = num_bins (length rps) sf"
  by (simp add: binned_method_def Let_def length_bin_centers)

lemma nth_binned_method:
  assumes "i < num_bins (length rps) sf"
  shows "binned_method rps sf ! i =
           (bin_centers (sort rps) sf ! i, fraction_le (sort rps) (bin_centers (sort rps) sf ! i))"
  using assms by (simp add: binned_method_def Let_def length_bin_centers)

lemma last_binned_method:
  "last (binned_method rps sf) = binned_method rps sf ! (num_bins (length rps) sf - 1)"
proof -
  have nb: "20 \<le> num_bins (length rps) sf" by (rule num_bins_ge)
  have len: "length (binned_method rps sf) = num_bins (length rps) sf"
    by (rule length_binned_method)
  then have "binned_method rps sf \<noteq> []" using nb by auto
  then show ?thesis using len by (simp add: last_conv_nth)
qed

lemma length_filter_insort:
  "length (filter P (insort x xs)) = length (filter P (x # xs))"
  by (induction xs) auto

lemma length_filter_sort: "length (filter P (sort xs)) = length (filter P xs)"
  by (induction xs) (simp_all add: sort_key_simps length_filter_insort)

lemma fraction_le_sort: "fraction_le (sort rps) c = fraction_le rps c"
  by (simp add: fraction_le_def length_filter_sort)

lemma filter_double_counts:
  assumes "\<forall>c \<in> set rps. c < 2 ^ 53"
  shows "filter (\<lambda>c. double (real c) \<le> e) rps = filter (\<lambda>c. real c \<le> e) rps"
  by (rule filter_cong[OF refl]) (use assms in \<open>simp add: double_nat\<close>)

lemma fraction_le_1_iff:
  assumes ne: "rps \<noteq> []" and len: "length rps < 2 ^ 53"
  shows "fraction_le rps e = 1 \<longleftrightarrow> (\<forall>c \<in> set rps. double (real c) \<le> e)"
proof -
  have n: "0 < length rps" using ne by simp
  have k: "length (filter (\<lambda>c. double (real c) \<le> e) rps) \<le> length rps" by simp
  have "fraction_le rps e = 1 \<longleftrightarrow> length (filter (\<lambda>c. double (real c) \<le> e) rps) = length rps"
    unfolding fraction_le_def by (rule double_ratio_1_iff[OF n len k])
  also have "\<dots> \<longleftrightarrow> (\<forall>c \<in> set rps. double (real c) \<le> e)"
  proof
    assume l: "length (filter (\<lambda>c. double (real c) \<le> e) rps) = length rps"
    show "\<forall>c \<in> set rps. double (real c) \<le> e"
    proof
      fix c assume c: "c \<in> set rps"
      show "double (real c) \<le> e"
      proof (rule ccontr)
        assume "\<not> double (real c) \<le> e"
        with c have "length (filter (\<lambda>c. double (real c) \<le> e) rps) < length rps"
          by (rule length_filter_less)
        then show False using l by simp
      qed
    qed
  next
    assume "\<forall>c \<in> set rps. double (real c) \<le> e"
    then have "filter (\<lambda>c. double (real c) \<le> e) rps = rps" by (simp add: filter_id_conv)
    then show "length (filter (\<lambda>c. double (real c) \<le> e) rps) = length rps" by simp
  qed
  finally show ?thesis .
qed

lemma counts_bounded:
  assumes "rps \<noteq> []" and "Max (set rps) < b"
  shows "\<forall>c \<in> set rps. c < b"
  using assms by (simp add: Max_less_iff)

lemma binned_point:
  assumes i: "i < num_bins (length rps) sf" and cnt: "\<forall>c \<in> set rps. c < 2 ^ 53"
  shows "fst (binned_method rps sf ! i) =
           double (double (bin_edges rps sf ! i + bin_edges rps sf ! (i + 1)) / 2)"
    and "snd (binned_method rps sf ! i) =
           double (real (length (filter (\<lambda>c. real c \<le> fst (binned_method rps sf ! i)) rps))
                   / real (length rps))"
    and "snd (binned_method rps sf ! i) = fraction_le rps (fst (binned_method rps sf ! i))"
proof -
  have i': "i < num_bins (length (sort rps)) sf" using i by simp
  show "fst (binned_method rps sf ! i) =
           double (double (bin_edges rps sf ! i + bin_edges rps sf ! (i + 1)) / 2)"
    unfolding nth_binned_method[OF i] using nth_bin_centers[OF i'] by (simp add: bin_edges_sort)
  show f: "snd (binned_method rps sf ! i) = fraction_le rps (fst (binned_method rps sf ! i))"
    unfolding nth_binned_method[OF i] by (simp add: fraction_le_sort)
  show "snd (binned_method rps sf ! i) =
           double (real (length (filter (\<lambda>c. real c \<le> fst (binned_method rps sf ! i)) rps))
                   / real (length rps))"
    unfolding f fraction_le_def filter_double_counts[OF cnt] ..
qed

lemma bin_edges_ends:
  assumes ne: "rps \<noteq> []" and cnt: "Max (set rps) < 2 ^ 52"
  shows "bin_edges rps sf = linspace_double (real (Min (set rps))) (real (Max (set rps)))
                              (num_bins (length rps) sf + 1)"
    and "bin_edges rps sf ! 0 = real (Min (set rps))"
    and "bin_edges rps sf ! num_bins (length rps) sf = real (Max (set rps))"
proof -
  have "Min (set rps) \<le> Max (set rps)" using ne by simp
  then have mn: "Min (set rps) < 2 ^ 53" using cnt by simp
  have mx: "Max (set rps) < 2 ^ 53" using cnt by simp
  show e: "bin_edges rps sf = linspace_double (real (Min (set rps))) (real (Max (set rps)))
                              (num_bins (length rps) sf + 1)"
    unfolding bin_edges_def double_nat[OF mn] double_nat[OF mx] ..
  have n: "1 < num_bins (length rps) sf + 1" using num_bins_ge[of "length rps" sf] by simp
  show "bin_edges rps sf ! 0 = real (Min (set rps))"
    unfolding e by (rule linspace_double_first[OF n double_nat[OF mn]])
  show "bin_edges rps sf ! num_bins (length rps) sf = real (Max (set rps))"
    unfolding e using linspace_double_last[OF n] by simp
qed

lemma bin_edges_equal_counts:
  assumes ne: "rps \<noteq> []" and cnt: "Max (set rps) < 2 ^ 52"
    and eq: "Min (set rps) = Max (set rps)" and i: "i \<le> num_bins (length rps) sf"
  shows "bin_edges rps sf ! i = real (Max (set rps))"
proof -
  have mx: "Max (set rps) < 2 ^ 53" using cnt by simp
  have i': "i < num_bins (length rps) sf + 1" using i by simp
  show ?thesis
    unfolding bin_edges_ends(1)[OF ne cnt] eq
    by (rule linspace_double_const[OF double_nat[OF mx] i'])
qed

lemma bin_edges_err:
  assumes ne: "rps \<noteq> []" and cnt: "Max (set rps) < 2 ^ 52"
    and len: "length rps < 2 ^ 53" and sf: "\<bar>sf\<bar> \<le> 512"
    and i: "i \<le> num_bins (length rps) sf"
  shows "\<bar>bin_edges rps sf ! i
            - (real (Min (set rps)) + real i *
                 ((real (Max (set rps)) - real (Min (set rps))) / real (num_bins (length rps) sf)))\<bar>
           \<le> (real (Min (set rps)) + real i *
                 ((real (Max (set rps)) - real (Min (set rps))) / real (num_bins (length rps) sf)))
               * (4 * (1 / 2 ^ 53))"
proof -
  define nb where "nb = num_bins (length rps) sf"
  define a where "a = Min (set rps)"
  define b where "b = Max (set rps)"
  have nb20: "20 \<le> nb" unfolding nb_def by (rule num_bins_ge)
  have nbp: "0 < real nb" using nb20 by simp
  have ab: "a \<le> b" unfolding a_def b_def using ne by simp
  have rab: "real b - real a = real (b - a)" using ab by (simp add: of_nat_diff)
  have rab': "real (Max (set rps)) - real (Min (set rps)) = real (Max (set rps) - Min (set rps))"
    using rab unfolding a_def b_def .
  have E0: "0 \<le> real a + real i * (real (b - a) / real nb)" by simp
  have "\<bar>bin_edges rps sf ! i - (real a + real i * (real (b - a) / real nb))\<bar>
          \<le> (real a + real i * (real (b - a) / real nb)) * (4 * (1 / 2 ^ 53))"
  proof (cases "a = b \<or> i = 0 \<or> i = nb")
    case True
    have "bin_edges rps sf ! i = real a + real i * (real (b - a) / real nb)"
    proof -
      consider "a = b" | "i = 0" | "i = nb" using True by blast
      then show ?thesis
      proof cases
        case 1
        have "bin_edges rps sf ! i = real (Max (set rps))"
          by (rule bin_edges_equal_counts[OF ne cnt _ i]) (use 1 in \<open>simp add: a_def b_def\<close>)
        then show ?thesis using 1 unfolding b_def by simp
      next
        case 2
        then show ?thesis using bin_edges_ends(2)[OF ne cnt, of sf] unfolding a_def by simp
      next
        case 3
        have "bin_edges rps sf ! nb = real b"
          unfolding nb_def b_def by (rule bin_edges_ends(3)[OF ne cnt])
        moreover have "real nb * (real (b - a) / real nb) = real (b - a)"
          using nbp by simp
        ultimately have "bin_edges rps sf ! nb = real a + real nb * (real (b - a) / real nb)"
          using rab by linarith
        then show ?thesis unfolding 3 .
      qed
    qed
    then show ?thesis using E0 by simp
  next
    case False
    then have lt: "a < b" and i0: "0 < i" and inb: "i < nb"
      using ab i unfolding nb_def by simp_all
    have b52: "b < 2 ^ 52" unfolding b_def by (rule cnt)
    have nb62: "nb \<le> 2 ^ 62" unfolding nb_def by (rule num_bins_le[OF len sf])
    show ?thesis
      unfolding bin_edges_ends(1)[OF ne cnt] a_def[symmetric] b_def[symmetric] nb_def[symmetric]
      by (rule linspace_double_nat_err(1)[OF lt b52 nb62 i0 inb])
  qed
  then show ?thesis unfolding rab' a_def b_def nb_def .
qed

lemma bin_center_err:
  assumes ne: "rps \<noteq> []" and cnt: "Max (set rps) < 2 ^ 52"
    and len: "length rps < 2 ^ 53" and sf: "\<bar>sf\<bar> \<le> 512"
    and i: "i < num_bins (length rps) sf"
  shows "\<bar>fst (binned_method rps sf ! i)
            - (real (Min (set rps)) + (real i + 1 / 2) *
                 ((real (Max (set rps)) - real (Min (set rps))) / real (num_bins (length rps) sf)))\<bar>
           \<le> (real (Min (set rps)) + (real i + 1 / 2) *
                 ((real (Max (set rps)) - real (Min (set rps))) / real (num_bins (length rps) sf)))
               * (8 * (1 / 2 ^ 53))"
proof -
  define nb where "nb = num_bins (length rps) sf"
  define a where "a = Min (set rps)"
  define b where "b = Max (set rps)"
  define w where "w = (real b - real a) / real nb"
  define E1 where "E1 = real a + real i * w"
  define E2 where "E2 = real a + real (i + 1) * w"
  define e1 where "e1 = bin_edges rps sf ! i"
  define e2 where "e2 = bin_edges rps sf ! (i + 1)"
  have nb20: "20 \<le> nb" unfolding nb_def by (rule num_bins_ge)
  have nbp: "0 < real nb" using nb20 by simp
  have ab: "a \<le> b" unfolding a_def b_def using ne by simp
  have w0: "0 \<le> w" unfolding w_def using ab nbp by simp
  have E10: "0 \<le> E1" unfolding E1_def using w0 by simp
  have E20: "0 \<le> E2" unfolding E2_def using w0 by simp
  have c53: "\<forall>c \<in> set rps. c < 2 ^ 53"
    by (rule counts_bounded[OF ne]) (use cnt in simp)
  have i1: "i \<le> num_bins (length rps) sf" and i2: "i + 1 \<le> num_bins (length rps) sf"
    using i by simp_all
  have err1: "\<bar>e1 - E1\<bar> \<le> E1 * (4 * (1 / 2 ^ 53))"
    unfolding e1_def E1_def w_def a_def b_def nb_def by (rule bin_edges_err[OF ne cnt len sf i1])
  have err2: "\<bar>e2 - E2\<bar> \<le> E2 * (4 * (1 / 2 ^ 53))"
    unfolding e2_def E2_def w_def a_def b_def nb_def by (rule bin_edges_err[OF ne cnt len sf i2])
  have x: "fst (binned_method rps sf ! i) = double (double (e1 + e2) / 2)"
    unfolding e1_def e2_def by (rule binned_point(1)[OF i c53])
  have mid: "(E1 + E2) / 2 = real a + (real i + 1 / 2) * w"
    unfolding E1_def E2_def by (simp add: algebra_simps)
  have "\<bar>double (double (e1 + e2) / 2) - (E1 + E2) / 2\<bar> \<le> (E1 + E2) / 2 * (8 * (1 / 2 ^ 53))"
  proof (cases "a = b")
    case True
    then have eq: "Min (set rps) = Max (set rps)" unfolding a_def b_def .
    have v1: "e1 = real b" unfolding e1_def b_def by (rule bin_edges_equal_counts[OF ne cnt eq i1])
    have v2: "e2 = real b" unfolding e2_def b_def by (rule bin_edges_equal_counts[OF ne cnt eq i2])
    have "double (double (real b + real b) / 2) = real b"
      unfolding b_def by (rule double_twice_half[OF cnt])
    moreover have "(E1 + E2) / 2 = real b" unfolding mid w_def using True by simp
    ultimately show ?thesis unfolding v1 v2 by simp
  next
    case False
    then have lt: "a < b" using ab by simp
    have b52: "b < 2 ^ 52" unfolding b_def by (rule cnt)
    have nb62: "nb \<le> 2 ^ 62" unfolding nb_def by (rule num_bins_le[OF len sf])
    have "0 < (1::nat)" "1 < nb" using nb20 by simp_all
    from linspace_double_nat_err(2)[OF lt b52 nb62 this]
    have "1 / 2 ^ 62 \<le> real (b - a) / real nb" .
    then have w62: "1 / 2 ^ 62 \<le> w" unfolding w_def using lt by (simp add: of_nat_diff)
    have "1 * w \<le> real (i + 1) * w" by (rule mult_right_mono[OF _ w0]) simp
    moreover have "0 \<le> real a" by simp
    ultimately have E262: "1 / 2 ^ 62 \<le> E2" unfolding E2_def using w62 by linarith
    have "1 / 2 ^ 63 \<le> E2 / 2" using E262 by simp
    moreover have "E2 * (4 * (1 / 2 ^ 53)) \<le> E2 / 2" using E20 by simp
    then have "E2 / 2 \<le> e2" using err2 by linarith
    moreover have "E1 * (4 * (1 / 2 ^ 53)) \<le> E1" using E10 by simp
    then have "0 \<le> e1" using err1 by linarith
    ultimately have S63: "1 / 2 ^ 63 \<le> e1 + e2" by linarith
    then have S100: "1 / 2 ^ 100 \<le> e1 + e2" by simp
    have s: "\<bar>double (e1 + e2) - (e1 + e2)\<bar> \<le> (e1 + e2) * (1 / 2 ^ 53)"
      and s2: "(e1 + e2) / 2 \<le> double (e1 + e2)"
      by (rule double_rel_err_normal[OF S100])+
    have "1 / 2 ^ 64 \<le> (e1 + e2) / 2" using S63 by simp
    then have "1 / 2 ^ 64 \<le> double (e1 + e2)" using s2 by linarith
    then have "1 / 2 ^ 100 \<le> double (e1 + e2) / 2" by simp
    then have c: "\<bar>double (double (e1 + e2) / 2) - double (e1 + e2) / 2\<bar>
                   \<le> double (e1 + e2) / 2 * (1 / 2 ^ 53)"
      by (rule double_rel_err_normal)
    show ?thesis
      by (rule centre_error_chain[OF _ _ E10 E20 err1 err2 s c]) simp_all
  qed
  then show ?thesis unfolding x mid w_def a_def b_def nb_def .
qed

lemma last_center_below_max:
  assumes ne: "rps \<noteq> []" and cnt: "Max (set rps) < 2 ^ 52"
    and len: "length rps < 2 ^ 53" and sf: "\<bar>sf\<bar> \<le> 512"
    and lt: "Min (set rps) < Max (set rps)"
    and small: "Max (set rps) * num_bins (length rps) sf < 2 ^ 49"
  shows "fst (last (binned_method rps sf)) < real (Max (set rps))"
proof -
  define nb where "nb = num_bins (length rps) sf"
  define a where "a = real (Min (set rps))"
  define b where "b = real (Max (set rps))"
  define w where "w = (b - a) / real nb"
  define C where "C = a + (real (nb - 1) + 1 / 2) * w"
  have nb20: "20 \<le> nb" unfolding nb_def by (rule num_bins_ge)
  have nbp: "0 < real nb" using nb20 by simp
  have i: "nb - 1 < num_bins (length rps) sf" using nb20 unfolding nb_def by simp
  have "Min (set rps) + 1 \<le> Max (set rps)" using lt by simp
  then have "real (Min (set rps) + 1) \<le> real (Max (set rps))" by (simp only: of_nat_le_iff)
  then have ab1: "1 \<le> b - a" unfolding a_def b_def by simp
  have b0: "0 \<le> b" unfolding b_def by simp
  have "1 / real nb \<le> (b - a) / real nb" using ab1 nbp by (simp add: divide_right_mono)
  then have w1: "1 / real nb \<le> w" unfolding w_def .
  have r: "real (nb - 1) = real nb - 1" using nb20 by (simp add: of_nat_diff)
  have "real nb * w = b - a" unfolding w_def using nbp by simp
  then have C: "C = b - w / 2" unfolding C_def r by (simp add: algebra_simps)
  have "real (Max (set rps) * nb) < real ((2::nat) ^ 49)"
    using small unfolding nb_def by (simp only: of_nat_less_iff)
  then have "b * real nb < 2 ^ 49" unfolding b_def by simp
  then have "b * (8 * (1 / 2 ^ 53)) < 1 / (2 * real nb)" using nbp by (simp add: field_simps)
  also have "\<dots> \<le> w / 2" using w1 by (simp add: field_simps)
  finally have bw: "b * (8 * (1 / 2 ^ 53)) < w / 2" .
  have w0: "0 \<le> w" using w1 nbp by (simp add: order_trans[rotated])
  have "C \<le> b" unfolding C using w0 by simp
  then have "C * (8 * (1 / 2 ^ 53)) \<le> b * (8 * (1 / 2 ^ 53))"
    by (rule mult_right_mono) simp
  then have Cw: "C * (8 * (1 / 2 ^ 53)) < w / 2" using bw by linarith
  have "\<bar>fst (binned_method rps sf ! (nb - 1)) - C\<bar> \<le> C * (8 * (1 / 2 ^ 53))"
    using bin_center_err[OF ne cnt len sf i] unfolding C_def w_def a_def b_def nb_def .
  then have "fst (binned_method rps sf ! (nb - 1)) < b" using Cw unfolding C by linarith
  then show ?thesis unfolding last_binned_method nb_def b_def .
qed

lemma last_fraction_below_1:
  assumes ne: "rps \<noteq> []" and cnt: "Max (set rps) < 2 ^ 52"
    and len: "length rps < 2 ^ 53" and sf: "\<bar>sf\<bar> \<le> 512"
    and lt: "Min (set rps) < Max (set rps)"
    and small: "Max (set rps) * num_bins (length rps) sf < 2 ^ 49"
  shows "snd (last (binned_method rps sf)) < 1"
proof -
  have c53: "\<forall>c \<in> set rps. c < 2 ^ 53"
    by (rule counts_bounded[OF ne]) (use cnt in simp)
  have i: "num_bins (length rps) sf - 1 < num_bins (length rps) sf"
    using num_bins_ge[of "length rps" sf] by simp
  have c: "fst (last (binned_method rps sf)) < real (Max (set rps))"
    by (rule last_center_below_max[OF ne cnt len sf lt small])
  have m: "Max (set rps) \<in> set rps" using ne by simp
  have "length (filter (\<lambda>c. real c \<le> fst (last (binned_method rps sf))) rps) < length rps"
    by (rule length_filter_less[OF m]) (use c in simp)
  then have "double (real (length (filter (\<lambda>c. real c \<le> fst (last (binned_method rps sf))) rps))
                    / real (length rps)) < 1"
    by (rule double_ratio_less_1[OF len])
  then show ?thesis
    unfolding last_binned_method binned_point(2)[OF i c53] .
qed

text \<open>
  Two runs of the method: the rightmost point for the counts \<open>[5 (9 times), 15]\<close>, and a
  bin center that rounding puts just below the count 4, so that its \<open>y\<close> is \<open>1 / 42\<close>.
\<close>

lemma binned_example_last:
  "last (binned_method [5,5,5,5,5,5,5,5,5,15] (1/2)) = (59/4, 8106479329266893 / 9007199254740992)"
proof -
  have l: "length [5,5,5,5,5,5,5,5,5,15::nat] = 10" by simp
  have ne: "[5,5,5,5,5,5,5,5,5,15::nat] \<noteq> []" by simp
  have mx: "Max (set [5,5,5,5,5,5,5,5,5,15::nat]) = 15" by simp
  have mn: "Min (set [5,5,5,5,5,5,5,5,5,15::nat]) = 5" by simp
  have cnt: "Max (set [5,5,5,5,5,5,5,5,5,15::nat]) < 2 ^ 52" unfolding mx by simp
  have c53: "\<forall>c \<in> set [5,5,5,5,5,5,5,5,5,15::nat]. c < 2 ^ 53" by simp
  have i: "19 < num_bins (length [5,5,5,5,5,5,5,5,5,15::nat]) (1/2)"
    unfolding l num_bins_examples by simp
  have e: "bin_edges [5,5,5,5,5,5,5,5,5,15] (1/2) = linspace_double 5 15 21"
    unfolding bin_edges_ends(1)[OF ne cnt] mx mn l num_bins_examples by simp
  have e19: "linspace_double 5 15 21 ! 19 = 29/2"
    by (subst nth_linspace_double) (simp_all add: double_eval)
  have e20: "linspace_double 5 15 21 ! 20 = 15"
    using linspace_double_last[of 21 5 15] by simp
  have s: "19 + 1 = (20::nat)" by simp
  have x: "fst (binned_method [5,5,5,5,5,5,5,5,5,15] (1/2) ! 19) = 59/4"
    unfolding binned_point(1)[OF i c53] e s e19 e20 by (simp add: double_eval)
  have y: "snd (binned_method [5,5,5,5,5,5,5,5,5,15] (1/2) ! 19)
             = 8106479329266893 / 9007199254740992"
    unfolding binned_point(2)[OF i c53] x by (simp add: double_eval)
  have "last (binned_method [5,5,5,5,5,5,5,5,5,15] (1/2))
          = binned_method [5,5,5,5,5,5,5,5,5,15] (1/2) ! 19"
    unfolding last_binned_method l num_bins_examples by simp
  then show ?thesis using x y by (simp add: prod_eq_iff)
qed

lemma binned_example_rounding:
  "binned_method (1 # 7 # replicate 40 4) (1/2) ! 10 =
     (9007199254740991 / 2251799813685248, 857828500451523 / 36028797018963968)"
proof -
  have l: "length (1 # 7 # replicate 40 (4::nat)) = 42" by simp
  have ne: "1 # 7 # replicate 40 (4::nat) \<noteq> []" by simp
  have mx: "Max (set (1 # 7 # replicate 40 (4::nat))) = 7" by simp
  have mn: "Min (set (1 # 7 # replicate 40 (4::nat))) = 1" by simp
  have cnt: "Max (set (1 # 7 # replicate 40 (4::nat))) < 2 ^ 52" unfolding mx by simp
  have c53: "\<forall>c \<in> set (1 # 7 # replicate 40 (4::nat)). c < 2 ^ 53" by simp
  have nb: "num_bins 42 (1/2) = 21" by (simp add: num_bins_def py_int_def double_eval)
  have i: "10 < num_bins (length (1 # 7 # replicate 40 (4::nat))) (1/2)"
    unfolding l nb by simp
  have e: "bin_edges (1 # 7 # replicate 40 4) (1/2) = linspace_double 1 7 22"
    unfolding bin_edges_ends(1)[OF ne cnt] mx mn l nb by simp
  have e10: "linspace_double 1 7 22 ! 10 = 4342756783535835 / 1125899906842624"
    by (subst nth_linspace_double) (simp_all add: double_eval)
  have e11: "linspace_double 1 7 22 ! 11 = 1166110617801289 / 281474976710656"
    by (subst nth_linspace_double) (simp_all add: double_eval)
  have s: "10 + 1 = (11::nat)" by simp
  have x: "fst (binned_method (1 # 7 # replicate 40 4) (1/2) ! 10)
             = 9007199254740991 / 2251799813685248"
    unfolding binned_point(1)[OF i c53] e s e10 e11 by (simp add: double_eval)
  have y: "snd (binned_method (1 # 7 # replicate 40 4) (1/2) ! 10)
             = 857828500451523 / 36028797018963968"
    unfolding binned_point(2)[OF i c53] x by (simp add: double_eval)
  show ?thesis using x y by (simp add: prod_eq_iff)
qed


text \<open>
  C3 as stated fails on the code. The number of bins is \<open>max(20, int(n * smoothing_factor))\<close>,
  with \<open>int\<close> truncating: 43 counts and factor 0.5 give 21 bins, not \<open>round(21.5) = 22\<close>.
  And the rightmost bin center lies half a bin below the maximum, so the maximal count is
  not at or below it: for the counts \<open>[5 (9 times), 15]\<close> the last \<open>y\<close> is the double
  nearest to 0.9, not 1.
\<close>

theorem binned_cdf_counterexample:
  "snd (last (binned_method [5,5,5,5,5,5,5,5,5,15] (1/2))) = 8106479329266893 / 9007199254740992 \<and>
   snd (last (binned_method [5,5,5,5,5,5,5,5,5,15] (1/2))) \<noteq> 1 \<and>
   length (binned_method (replicate 43 7) (1/2)) = 21 \<and>
   nat (max 20 (round (real 43 * (1/2)))) = 22"
proof -
  have c3: "length (binned_method (replicate 43 7) (1/2)) = 21"
    unfolding length_binned_method length_replicate by (rule num_bins_examples)
  have c4: "nat (max 20 (round (real 43 * (1/2)))) = 22" by (simp add: round_def)
  show ?thesis unfolding binned_example_last using c3 c4 by simp
qed

text \<open>
  C3, amended. Let the count series be non-empty, with counts below \<open>2 ^ 52\<close>, fewer than
  \<open>2 ^ 53\<close> of them, and a smoothing factor that is a double of magnitude at most 512.
  The Binned method returns \<open>max(20, int(n * smoothing_factor))\<close> points, the product
  rounded to a double and \<open>int\<close> truncating towards zero. The bin edges are those of
  \<open>np.linspace(min, max, bins + 1)\<close>: the first is \<open>min\<close>, the last is \<open>max\<close>, and edge \<open>i\<close> is
  \<open>min + i * (max - min) / bins\<close> up to a relative error of \<open>2 ^ (- 51)\<close>, so the bins have
  equal width up to rounding. The \<open>x\<close> of point \<open>i\<close> is the rounded midpoint of edges \<open>i\<close> and
  \<open>i + 1\<close>, which is \<open>min + (i + 1/2) * (max - min) / bins\<close> up to a relative error of
  \<open>2 ^ (- 50)\<close>, and its \<open>y\<close> is the rounded fraction of all counts at most that \<open>x\<close>.
  The \<open>y\<close> at the rightmost bin center is 1 exactly when every count is at most that
  center: when all counts are equal every point is \<open>(max, 1)\<close>; when they are not, and
  \<open>max * bins < 2 ^ 49\<close>, the rightmost center is below \<open>max\<close> and its \<open>y\<close> is below 1.
\<close>

theorem binned_cdf_amended:
  assumes ne: "rps \<noteq> []"
    and cnt: "Max (set rps) < 2 ^ 52"
    and len: "length rps < 2 ^ 53"
    and sf: "double sf = sf" "\<bar>sf\<bar> \<le> 512"
  shows "length (binned_method rps sf) = nat (max 20 (py_int (double (real (length rps) * sf)))) \<and>
   bin_edges rps sf = linspace_double (real (Min (set rps))) (real (Max (set rps)))
                        (length (binned_method rps sf) + 1) \<and>
   bin_edges rps sf ! 0 = real (Min (set rps)) \<and>
   bin_edges rps sf ! length (binned_method rps sf) = real (Max (set rps)) \<and>
   (\<forall>i \<le> length (binned_method rps sf).
      \<bar>bin_edges rps sf ! i
         - (real (Min (set rps)) + real i *
              ((real (Max (set rps)) - real (Min (set rps))) / real (length (binned_method rps sf))))\<bar>
        \<le> (real (Min (set rps)) + real i *
              ((real (Max (set rps)) - real (Min (set rps))) / real (length (binned_method rps sf))))
            / 2 ^ 51) \<and>
   (\<forall>i < length (binned_method rps sf).
      fst (binned_method rps sf ! i) =
        double (double (bin_edges rps sf ! i + bin_edges rps sf ! (i + 1)) / 2) \<and>
      \<bar>fst (binned_method rps sf ! i)
         - (real (Min (set rps)) + (real i + 1 / 2) *
              ((real (Max (set rps)) - real (Min (set rps))) / real (length (binned_method rps sf))))\<bar>
        \<le> (real (Min (set rps)) + (real i + 1 / 2) *
              ((real (Max (set rps)) - real (Min (set rps))) / real (length (binned_method rps sf))))
            / 2 ^ 50 \<and>
      snd (binned_method rps sf ! i) =
        double (real (length (filter (\<lambda>c. real c \<le> fst (binned_method rps sf ! i)) rps))
                / real (length rps))) \<and>
   (snd (last (binned_method rps sf)) = 1 \<longleftrightarrow>
      (\<forall>c \<in> set rps. real c \<le> fst (last (binned_method rps sf)))) \<and>
   (Min (set rps) = Max (set rps) \<longrightarrow>
      (\<forall>i < length (binned_method rps sf). binned_method rps sf ! i = (real (Max (set rps)), 1))) \<and>
   (Min (set rps) < Max (set rps) \<and> Max (set rps) * length (binned_method rps sf) < 2 ^ 49 \<longrightarrow>
      fst (last (binned_method rps sf)) < real (Max (set rps)) \<and>
      snd (last (binned_method rps sf)) < 1)"
proof -
  define nb where "nb = num_bins (length rps) sf"
  have l: "length (binned_method rps sf) = nb" unfolding nb_def by (rule length_binned_method)
  have nb: "20 \<le> nb" unfolding nb_def by (rule num_bins_ge)
  have c53: "\<forall>c \<in> set rps. c < 2 ^ 53"
    by (rule counts_bounded[OF ne]) (use cnt in simp)
  have p1: "length (binned_method rps sf) = nat (max 20 (py_int (double (real (length rps) * sf))))"
    unfolding l nb_def num_bins_def ..
  have p2: "bin_edges rps sf = linspace_double (real (Min (set rps))) (real (Max (set rps)))
                        (length (binned_method rps sf) + 1)"
    unfolding l nb_def by (rule bin_edges_ends(1)[OF ne cnt])
  have p3: "bin_edges rps sf ! 0 = real (Min (set rps))"
    by (rule bin_edges_ends(2)[OF ne cnt])
  have p4: "bin_edges rps sf ! length (binned_method rps sf) = real (Max (set rps))"
    unfolding l nb_def by (rule bin_edges_ends(3)[OF ne cnt])
  have p5: "\<forall>i \<le> length (binned_method rps sf).
      \<bar>bin_edges rps sf ! i
         - (real (Min (set rps)) + real i *
              ((real (Max (set rps)) - real (Min (set rps))) / real (length (binned_method rps sf))))\<bar>
        \<le> (real (Min (set rps)) + real i *
              ((real (Max (set rps)) - real (Min (set rps))) / real (length (binned_method rps sf))))
            / 2 ^ 51"
  proof (intro allI impI)
    fix i assume "i \<le> length (binned_method rps sf)"
    then have i: "i \<le> num_bins (length rps) sf" unfolding l nb_def .
    have s: "x * (4 * (1 / 2 ^ 53)) = x / 2 ^ 51" for x :: real by simp
    show "\<bar>bin_edges rps sf ! i
         - (real (Min (set rps)) + real i *
              ((real (Max (set rps)) - real (Min (set rps))) / real (length (binned_method rps sf))))\<bar>
        \<le> (real (Min (set rps)) + real i *
              ((real (Max (set rps)) - real (Min (set rps))) / real (length (binned_method rps sf))))
            / 2 ^ 51"
      using bin_edges_err[OF ne cnt len sf(2) i] unfolding s l nb_def .
  qed
  have p6: "\<forall>i < length (binned_method rps sf).
      fst (binned_method rps sf ! i) =
        double (double (bin_edges rps sf ! i + bin_edges rps sf ! (i + 1)) / 2) \<and>
      \<bar>fst (binned_method rps sf ! i)
         - (real (Min (set rps)) + (real i + 1 / 2) *
              ((real (Max (set rps)) - real (Min (set rps))) / real (length (binned_method rps sf))))\<bar>
        \<le> (real (Min (set rps)) + (real i + 1 / 2) *
              ((real (Max (set rps)) - real (Min (set rps))) / real (length (binned_method rps sf))))
            / 2 ^ 50 \<and>
      snd (binned_method rps sf ! i) =
        double (real (length (filter (\<lambda>c. real c \<le> fst (binned_method rps sf ! i)) rps))
                / real (length rps))"
  proof (intro allI impI conjI)
    fix i assume "i < length (binned_method rps sf)"
    then have i: "i < num_bins (length rps) sf" unfolding l nb_def .
    have s: "x * (8 * (1 / 2 ^ 53)) = x / 2 ^ 50" for x :: real by simp
    show "fst (binned_method rps sf ! i) =
        double (double (bin_edges rps sf ! i + bin_edges rps sf ! (i + 1)) / 2)"
      by (rule binned_point(1)[OF i c53])
    show "snd (binned_method rps sf ! i) =
        double (real (length (filter (\<lambda>c. real c \<le> fst (binned_method rps sf ! i)) rps))
                / real (length rps))"
      by (rule binned_point(2)[OF i c53])
    show "\<bar>fst (binned_method rps sf ! i)
         - (real (Min (set rps)) + (real i + 1 / 2) *
              ((real (Max (set rps)) - real (Min (set rps))) / real (length (binned_method rps sf))))\<bar>
        \<le> (real (Min (set rps)) + (real i + 1 / 2) *
              ((real (Max (set rps)) - real (Min (set rps))) / real (length (binned_method rps sf))))
            / 2 ^ 50"
      using bin_center_err[OF ne cnt len sf(2) i] unfolding s l nb_def .
  qed
  have p7: "snd (last (binned_method rps sf)) = 1 \<longleftrightarrow>
      (\<forall>c \<in> set rps. real c \<le> fst (last (binned_method rps sf)))"
  proof -
    have i: "nb - 1 < num_bins (length rps) sf" using nb unfolding nb_def by simp
    have "snd (last (binned_method rps sf)) = fraction_le rps (fst (last (binned_method rps sf)))"
      unfolding last_binned_method nb_def[symmetric] by (rule binned_point(3)[OF i c53])
    also have "\<dots> = 1 \<longleftrightarrow>
       (\<forall>c \<in> set rps. double (real c) \<le> fst (last (binned_method rps sf)))"
      by (rule fraction_le_1_iff[OF ne len])
    also have "\<dots> \<longleftrightarrow> (\<forall>c \<in> set rps. real c \<le> fst (last (binned_method rps sf)))"
      using c53 by (simp add: double_nat)
    finally show ?thesis .
  qed
  have p8: "Min (set rps) = Max (set rps) \<longrightarrow>
      (\<forall>i < length (binned_method rps sf). binned_method rps sf ! i = (real (Max (set rps)), 1))"
  proof (intro impI allI)
    fix i assume eq: "Min (set rps) = Max (set rps)" and "i < length (binned_method rps sf)"
    then have i: "i < num_bins (length rps) sf" unfolding l nb_def by simp
    have e1: "bin_edges rps sf ! i = real (Max (set rps))"
      by (rule bin_edges_equal_counts[OF ne cnt eq]) (use i in simp)
    have e2: "bin_edges rps sf ! (i + 1) = real (Max (set rps))"
      by (rule bin_edges_equal_counts[OF ne cnt eq]) (use i in simp)
    have x: "fst (binned_method rps sf ! i) = real (Max (set rps))"
      unfolding binned_point(1)[OF i c53] e1 e2 by (rule double_twice_half[OF cnt])
    have "\<forall>c \<in> set rps. double (real c) \<le> real (Max (set rps))"
      using c53 by (simp add: double_nat)
    then have "fraction_le rps (real (Max (set rps))) = 1"
      unfolding fraction_le_1_iff[OF ne len] .
    then have y: "snd (binned_method rps sf ! i) = 1"
      unfolding binned_point(3)[OF i c53] x .
    show "binned_method rps sf ! i = (real (Max (set rps)), 1)"
      using x y by (simp add: prod_eq_iff)
  qed
  have p9: "Min (set rps) < Max (set rps) \<and> Max (set rps) * length (binned_method rps sf) < 2 ^ 49 \<longrightarrow>
      fst (last (binned_method rps sf)) < real (Max (set rps)) \<and>
      snd (last (binned_method rps sf)) < 1"
  proof (intro impI conjI)
    assume a: "Min (set rps) < Max (set rps) \<and> Max (set rps) * length (binned_method rps sf) < 2 ^ 49"
    then have lt: "Min (set rps) < Max (set rps)"
      and small: "Max (set rps) * num_bins (length rps) sf < 2 ^ 49"
      unfolding l nb_def by simp_all
    show "fst (last (binned_method rps sf)) < real (Max (set rps))"
      by (rule last_center_below_max[OF ne cnt len sf(2) lt small])
    show "snd (last (binned_method rps sf)) < 1"
      by (rule last_fraction_below_1[OF ne cnt len sf(2) lt small])
  qed
  show ?thesis using p1 p2 p3 p4 p5 p6 p7 p8 p9 by blast
qed

theorem binned_cdf_amended_witness:
  "[5,5,5,5,5,5,5,5,5,15::nat] \<noteq> [] \<and>
   Max (set [5,5,5,5,5,5,5,5,5,15::nat]) < 2 ^ 52 \<and>
   length [5,5,5,5,5,5,5,5,5,15::nat] < 2 ^ 53 \<and>
   double (1/2) = 1/2 \<and>
   \<bar>1/2 :: real\<bar> \<le> 512 \<and>
   length (binned_method [5,5,5,5,5,5,5,5,5,15] (1/2)) =
     nat (max 20 (py_int (double (real (length [5,5,5,5,5,5,5,5,5,15::nat]) * (1/2))))) \<and>
   bin_edges [5,5,5,5,5,5,5,5,5,15] (1/2) =
     linspace_double (real (Min (set [5,5,5,5,5,5,5,5,5,15]))) (real (Max (set [5,5,5,5,5,5,5,5,5,15])))
       (length (binned_method [5,5,5,5,5,5,5,5,5,15] (1/2)) + 1) \<and>
   bin_edges [5,5,5,5,5,5,5,5,5,15] (1/2) ! 0 = real (Min (set [5,5,5,5,5,5,5,5,5,15])) \<and>
   bin_edges [5,5,5,5,5,5,5,5,5,15] (1/2) ! length (binned_method [5,5,5,5,5,5,5,5,5,15] (1/2))
     = real (Max (set [5,5,5,5,5,5,5,5,5,15])) \<and>
   0 \<le> length (binned_method [5,5,5,5,5,5,5,5,5,15] (1/2)) \<and>
   \<bar>bin_edges [5,5,5,5,5,5,5,5,5,15] (1/2) ! 0
      - (real (Min (set [5,5,5,5,5,5,5,5,5,15])) + real 0 *
        ((real (Max (set [5,5,5,5,5,5,5,5,5,15])) - real (Min (set [5,5,5,5,5,5,5,5,5,15]))) / real (length (binned_method [5,5,5,5,5,5,5,5,5,15] (1/2)))))\<bar>
     \<le> (real (Min (set [5,5,5,5,5,5,5,5,5,15])) + real 0 *
        ((real (Max (set [5,5,5,5,5,5,5,5,5,15])) - real (Min (set [5,5,5,5,5,5,5,5,5,15]))) / real (length (binned_method [5,5,5,5,5,5,5,5,5,15] (1/2))))) / 2 ^ 51 \<and>
   0 < length (binned_method [5,5,5,5,5,5,5,5,5,15] (1/2)) \<and>
   fst (binned_method [5,5,5,5,5,5,5,5,5,15] (1/2) ! 0) =
     double (double (bin_edges [5,5,5,5,5,5,5,5,5,15] (1/2) ! 0
                     + bin_edges [5,5,5,5,5,5,5,5,5,15] (1/2) ! (0 + 1)) / 2) \<and>
   \<bar>fst (binned_method [5,5,5,5,5,5,5,5,5,15] (1/2) ! 0)
      - (real (Min (set [5,5,5,5,5,5,5,5,5,15])) + (real 0 + 1 / 2) *
        ((real (Max (set [5,5,5,5,5,5,5,5,5,15])) - real (Min (set [5,5,5,5,5,5,5,5,5,15]))) / real (length (binned_method [5,5,5,5,5,5,5,5,5,15] (1/2)))))\<bar>
     \<le> (real (Min (set [5,5,5,5,5,5,5,5,5,15])) + (real 0 + 1 / 2) *
        ((real (Max (set [5,5,5,5,5,5,5,5,5,15])) - real (Min (set [5,5,5,5,5,5,5,5,5,15]))) / real (length (binned_method [5,5,5,5,5,5,5,5,5,15] (1/2))))) / 2 ^ 50 \<and>
   snd (binned_method [5,5,5,5,5,5,5,5,5,15] (1/2) ! 0) =
     double (real (length (filter (\<lambda>c. real c \<le> fst (binned_method [5,5,5,5,5,5,5,5,5,15] (1/2) ! 0))
                             [5,5,5,5,5,5,5,5,5,15]))
             / real (length [5,5,5,5,5,5,5,5,5,15::nat])) \<and>
   Min (set [5,5,5,5,5,5,5,5,5,15::nat]) < Max (set [5,5,5,5,5,5,5,5,5,15]) \<and>
   Max (set [5,5,5,5,5,5,5,5,5,15::nat]) * length (binned_method [5,5,5,5,5,5,5,5,5,15] (1/2)) < 2 ^ 49 \<and>
   fst (last (binned_method [5,5,5,5,5,5,5,5,5,15] (1/2))) < real (Max (set [5,5,5,5,5,5,5,5,5,15])) \<and>
   snd (last (binned_method [5,5,5,5,5,5,5,5,5,15] (1/2))) < 1 \<and>
   [7, 7::nat] \<noteq> [] \<and>
   Max (set [7, 7::nat]) < 2 ^ 52 \<and>
   length [7, 7::nat] < 2 ^ 53 \<and>
   Min (set [7, 7::nat]) = Max (set [7, 7]) \<and>
   0 < length (binned_method [7, 7] (1/2)) \<and>
   binned_method [7, 7] (1/2) ! 0 = (real (Max (set [7, 7])), 1) \<and>
   snd (last (binned_method [7, 7] (1/2))) = 1"
proof -
  have ne: "[5,5,5,5,5,5,5,5,5,15::nat] \<noteq> []" by simp
  have cnt: "Max (set [5,5,5,5,5,5,5,5,5,15::nat]) < 2 ^ 52" by simp
  have len: "length [5,5,5,5,5,5,5,5,5,15::nat] < 2 ^ 53" by simp
  have sf1: "double (1/2) = 1/2" by (rule double_examples)
  have sf2: "\<bar>1/2 :: real\<bar> \<le> 512" by simp
  have ne7: "[7, 7::nat] \<noteq> []" by simp
  have cnt7: "Max (set [7, 7::nat]) < 2 ^ 52" by simp
  have len7: "length [7, 7::nat] < 2 ^ 53" by simp
  have eq: "Min (set [7, 7::nat]) = Max (set [7, 7])" by simp
  have lt: "Min (set [5,5,5,5,5,5,5,5,5,15::nat]) < Max (set [5,5,5,5,5,5,5,5,5,15])" by simp
  have l10: "length [5,5,5,5,5,5,5,5,5,15::nat] = 10" by simp
  have lb: "length (binned_method [5,5,5,5,5,5,5,5,5,15] (1/2)) = 20"
    unfolding length_binned_method l10 by (rule num_bins_examples)
  have nn: "0 \<le> length (binned_method [5,5,5,5,5,5,5,5,5,15] (1/2))" by simp
  have pos: "0 < length (binned_method [5,5,5,5,5,5,5,5,5,15] (1/2))" unfolding lb by simp
  have small: "Max (set [5,5,5,5,5,5,5,5,5,15::nat]) * length (binned_method [5,5,5,5,5,5,5,5,5,15] (1/2)) < 2 ^ 49"
    unfolding lb by simp
  have pos7: "0 < length (binned_method [7, 7] (1/2))"
    unfolding length_binned_method using num_bins_ge[of "length [7, 7::nat]" "1/2"] by linarith
  have l7: "num_bins (length [7, 7::nat]) (1/2) - 1 < length (binned_method [7, 7] (1/2))"
    unfolding length_binned_method using num_bins_ge[of "length [7, 7::nat]" "1/2"] by linarith
  note t = binned_cdf_amended[OF ne cnt len sf1 sf2]
  note u = binned_cdf_amended[OF ne7 cnt7 len7 sf1 sf2]
  note t1 = conjunct1[OF t]
  note r1 = conjunct2[OF t]
  note t2 = conjunct1[OF r1]
  note r2 = conjunct2[OF r1]
  note t3 = conjunct1[OF r2]
  note r3 = conjunct2[OF r2]
  note t4 = conjunct1[OF r3]
  note r4 = conjunct2[OF r3]
  note t5 = conjunct1[OF r4, rule_format, OF nn]
  note r5 = conjunct2[OF r4]
  note t6 = conjunct1[OF r5, rule_format, OF pos]
  note r6 = conjunct2[OF r5]
  note r7 = conjunct2[OF r6]
  note t9 = mp[OF conjunct2[OF r7] conjI[OF lt small]]
  note s1 = conjunct2[OF u]
  note s2 = conjunct2[OF s1]
  note s3 = conjunct2[OF s2]
  note s4 = conjunct2[OF s3]
  note s5 = conjunct2[OF s4]
  note s6 = conjunct2[OF s5]
  note u7 = conjunct1[OF s6]
  note u8 = mp[OF conjunct1[OF conjunct2[OF s6]] eq]
  have last7: "last (binned_method [7, 7] (1/2)) = (real (Max (set [7, 7])), 1)"
    unfolding last_binned_method by (rule u8[rule_format, OF l7])
  have all7: "\<forall>c \<in> set [7, 7::nat]. real c \<le> fst (last (binned_method [7, 7] (1/2)))"
    unfolding last7 by simp
  show ?thesis
    apply (intro conjI)
    apply (rule ne)
    apply (rule cnt)
    apply (rule len)
    apply (rule sf1)
    apply (rule sf2)
    apply (rule t1)
    apply (rule t2)
    apply (rule t3)
    apply (rule t4)
    apply (rule nn)
    apply (rule t5)
    apply (rule pos)
    apply (rule conjunct1[OF t6])
    apply (rule conjunct1[OF conjunct2[OF t6]])
    apply (rule conjunct2[OF conjunct2[OF t6]])
    apply (rule lt)
    apply (rule small)
    apply (rule conjunct1[OF t9])
    apply (rule conjunct2[OF t9])
    apply (rule ne7)
    apply (rule cnt7)
    apply (rule len7)
    apply (rule eq)
    apply (rule pos7)
    apply (rule u8[rule_format, OF pos7])
    apply (rule iffD2[OF u7 all7])
    done
qed


subsection \<open>Gaussian method\<close>

lemma convex_combination:
  fixes lo hi :: real
  assumes "\<forall>k \<in> set ks. 0 \<le> w k \<and> lo \<le> a k \<and> a k \<le> hi"
  shows "lo * sum_list (map w ks) \<le> sum_list (map (\<lambda>k. w k * a k) ks) \<and>
         sum_list (map (\<lambda>k. w k * a k) ks) \<le> hi * sum_list (map w ks)"
  using assms
proof (induction ks)
  case Nil
  then show ?case by simp
next
  case (Cons k ks)
  then have w: "0 \<le> w k" and a: "lo \<le> a k" "a k \<le> hi" by simp_all
  have "w k * lo \<le> w k * a k" using a(1) w by (rule mult_left_mono)
  then have l: "lo * w k \<le> w k * a k" by (simp add: mult.commute)
  have "w k * a k \<le> w k * hi" using a(2) w by (rule mult_left_mono)
  then have h: "w k * a k \<le> hi * w k" by (simp add: mult.commute)
  from Cons have ih: "lo * sum_list (map w ks) \<le> sum_list (map (\<lambda>k. w k * a k) ks)"
      "sum_list (map (\<lambda>k. w k * a k) ks) \<le> hi * sum_list (map w ks)" by simp_all
  show ?case using l h ih by (simp add: algebra_simps)
qed

lemma kernel_length: "length (gaussian_kernel1d sigma radius) = 2 * radius + 1"
  by (simp add: gaussian_kernel1d_def Let_def)

lemma kernel_weights:
  shows "\<forall>p \<in> set (gaussian_kernel1d sigma radius). 0 \<le> p"
    and "sum_list (gaussian_kernel1d sigma radius) = 1"
proof -
  define phi where "phi = map (\<lambda>x. exp (- 0.5 / (sigma * sigma) * (real_of_int x)\<^sup>2)) [- int radius..int radius]"
  have k: "gaussian_kernel1d sigma radius = map (\<lambda>p. p / sum_list phi) phi"
    by (simp add: gaussian_kernel1d_def Let_def phi_def)
  have pos: "\<forall>p \<in> set phi. 0 < p" by (auto simp: phi_def)
  have ne: "phi \<noteq> []" by (simp add: phi_def)
  have s: "0 < sum_list phi" using pos ne by (induction phi) (auto intro: add_pos_nonneg sum_list_nonneg less_imp_le)
  show "\<forall>p \<in> set (gaussian_kernel1d sigma radius). 0 \<le> p"
    unfolding k using pos s by (auto intro!: divide_nonneg_pos less_imp_le)
  have dv: "sum_list (map (\<lambda>p. p / c) zs) = sum_list zs / c" for c :: real and zs
    by (induction zs) (simp_all add: add_divide_distrib)
  have "sum_list (map (\<lambda>p. p / sum_list phi) phi) = sum_list phi / sum_list phi"
    by (rule dv)
  then show "sum_list (gaussian_kernel1d sigma radius) = 1" unfolding k using s by simp
qed

lemma reflect_index_less: "0 < n \<Longrightarrow> reflect_index n j < n"
proof -
  assume n: "0 < n"
  have "0 \<le> j mod (2 * int n)" "j mod (2 * int n) < 2 * int n" using n by simp_all
  then show ?thesis unfolding reflect_index_def Let_def using n by auto
qed

lemma length_cumulative: "length (cumulative n) = n"
  by (simp add: cumulative_def)

lemma nth_cumulative: "j < n \<Longrightarrow> cumulative n ! j = real (j + 1) / real n"
  unfolding cumulative_def by (simp add: add.commute del: upt_Suc)

lemma cumulative_bounds:
  assumes "j < n"
  shows "1 / real n \<le> cumulative n ! j" and "cumulative n ! j \<le> 1"
proof -
  have n: "0 < real n" using assms by simp
  show "1 / real n \<le> cumulative n ! j"
    unfolding nth_cumulative[OF assms] using n by (simp add: divide_le_cancel)
  show "cumulative n ! j \<le> 1"
    unfolding nth_cumulative[OF assms] using n assms by simp
qed

lemma length_correlate1d: "length (correlate1d input weights) = length input"
  by (simp add: correlate1d_def Let_def)

lemma correlate1d_bounds:
  assumes ne: "input \<noteq> []"
    and w0: "\<forall>p \<in> set weights. 0 \<le> p" and w1: "sum_list weights = 1"
    and b: "\<forall>x \<in> set input. lo \<le> x \<and> x \<le> hi"
  shows "\<forall>y \<in> set (correlate1d input weights). lo \<le> y \<and> y \<le> hi"
proof
  fix y assume "y \<in> set (correlate1d input weights)"
  then obtain i where y: "y = sum_list (map (\<lambda>k. weights ! k *
        input ! reflect_index (length input) (int i + int k - int (length weights div 2)))
        [0..<length weights])"
    by (auto simp: correlate1d_def Let_def)
  define a where "a = (\<lambda>k. input ! reflect_index (length input) (int i + int k - int (length weights div 2)))"
  have n: "0 < length input" using ne by simp
  have "\<forall>k \<in> set [0..<length weights]. 0 \<le> weights ! k \<and> lo \<le> a k \<and> a k \<le> hi"
    using w0 b reflect_index_less[OF n] unfolding a_def by (simp add: nth_mem)
  from convex_combination[OF this]
  have "lo * sum_list (map ((!) weights) [0..<length weights]) \<le> y"
    and "y \<le> hi * sum_list (map ((!) weights) [0..<length weights])"
    unfolding y a_def by simp_all
  then show "lo \<le> y \<and> y \<le> hi" unfolding map_nth w1 by simp
qed

lemma gaussian_filter1d_ok:
  assumes "0 < sigma"
  shows "gaussian_filter1d input sigma =
           Inr (correlate1d input (gaussian_kernel1d sigma (nat (py_int (4 * sigma + 0.5)))))"
proof -
  have "0 \<le> py_int (4 * sigma + 0.5)" using assms by (simp add: py_int_def)
  then show ?thesis using assms by (simp add: gaussian_filter1d_def Let_def)
qed


text \<open>
  C10. For every non-empty count series of length \<open>n\<close> and every positive smoothing
  factor, the Gaussian method returns exactly \<open>n\<close> points, one per sorted count with the
  x-axis unchanged, and every smoothed \<open>y\<close> lies in \<open>[1/n, 1]\<close>, hence in \<open>[0, 1]\<close>: each is
  a convex combination of raw cumulative values.
\<close>

theorem gaussian_cdf_bounds:
  assumes ne: "rps \<noteq> []" and sf: "0 < smoothing_factor"
  shows "\<exists>smooth. gaussian_method rps smoothing_factor = Inr smooth \<and>
           length smooth = length rps \<and>
           map fst smooth = map real (sort rps) \<and>
           (\<forall>y \<in> set (map snd smooth). 1 / real (length rps) \<le> y \<and> y \<le> 1 \<and> 0 \<le> y)"
proof -
  define n where "n = length rps"
  define sigma where "sigma = smoothing_factor * real n / 100"
  define K where "K = gaussian_kernel1d sigma (nat (py_int (4 * sigma + 0.5)))"
  define ys where "ys = correlate1d (cumulative n) K"
  have n: "0 < n" using ne unfolding n_def by simp
  have sigma: "0 < sigma" using sf n unfolding sigma_def by simp
  have g: "gaussian_method rps smoothing_factor = Inr (zip (map real (sort rps)) ys)"
    unfolding gaussian_method_def Let_def
    by (simp add: gaussian_filter1d_ok[OF sigma[unfolded sigma_def n_def]] ys_def K_def sigma_def n_def)
  have ly: "length ys = n" unfolding ys_def by (simp add: length_correlate1d length_cumulative)
  have cne: "cumulative n \<noteq> []" using n length_cumulative[of n] by auto
  have cb: "\<forall>x \<in> set (cumulative n). 1 / real n \<le> x \<and> x \<le> 1"
    using cumulative_bounds by (auto simp: in_set_conv_nth length_cumulative)
  have yb: "\<forall>y \<in> set ys. 1 / real n \<le> y \<and> y \<le> 1"
    unfolding ys_def K_def
    by (rule correlate1d_bounds[OF cne kernel_weights(1) kernel_weights(2) cb])
  have l: "length (zip (map real (sort rps)) ys) = length rps" using ly by (simp add: n_def)
  have f: "map fst (zip (map real (sort rps)) ys) = map real (sort rps)"
    using ly by (simp add: n_def)
  have sn: "map snd (zip (map real (sort rps)) ys) = ys"
    using ly by (simp add: n_def)
  have "\<forall>y \<in> set (map snd (zip (map real (sort rps)) ys)).
          1 / real (length rps) \<le> y \<and> y \<le> 1 \<and> 0 \<le> y"
    unfolding sn
  proof
    fix y assume "y \<in> set ys"
    then have "1 / real n \<le> y \<and> y \<le> 1" using yb by blast
    moreover have "0 \<le> 1 / real n" by simp
    ultimately show "1 / real (length rps) \<le> y \<and> y \<le> 1 \<and> 0 \<le> y"
      unfolding n_def by linarith
  qed
  with g l f show ?thesis by blast
qed

theorem gaussian_cdf_bounds_witness:
  "[3, 5, 5::nat] \<noteq> [] \<and> 0 < (1/2::real) \<and>
   (\<exists>smooth. gaussian_method [3, 5, 5] (1/2) = Inr smooth \<and>
           length smooth = length [3, 5, 5::nat] \<and>
           map fst smooth = map real (sort [3, 5, 5]) \<and>
           (\<forall>y \<in> set (map snd smooth). 1 / real (length [3, 5, 5::nat]) \<le> y \<and> y \<le> 1 \<and> 0 \<le> y))"
proof -
  have h1: "[3, 5, 5::nat] \<noteq> []" by simp
  have h2: "0 < (1/2::real)" by simp
  show ?thesis by (intro conjI h1 h2 gaussian_cdf_bounds[OF h1 h2])
qed

subsection \<open>Deduplication of the raw CDF\<close>

lemma strict_sorted_remdups_adj:
  "sorted xs \<Longrightarrow> sorted_wrt (<) (remdups_adj xs)" for xs :: "nat list"
proof (induction xs rule: remdups_adj.induct)
  case (3 x y xs)
  show ?case
  proof (cases "x = y")
    case True
    then show ?thesis using 3 by simp
  next
    case False
    then have xy: "x < y" using "3.prems" by simp
    have s: "sorted_wrt (<) (remdups_adj (y # xs))" using 3 False by simp
    have "\<forall>z \<in> set (remdups_adj (y # xs)). y \<le> z" using "3.prems" by auto
    then have "\<forall>z \<in> set (remdups_adj (y # xs)). x < z" using xy by auto
    then show ?thesis using False s by simp
  qed
qed simp_all

lemma first_index_less: "c \<in> set xs \<Longrightarrow> first_index xs c < length xs"
  by (induction xs) auto

lemma first_index_mono:
  "sorted xs \<Longrightarrow> c \<in> set xs \<Longrightarrow> c' \<in> set xs \<Longrightarrow> c < c' \<Longrightarrow>
   first_index xs c < first_index xs c'" for xs :: "nat list"
proof (induction xs)
  case Nil
  then show ?case by simp
next
  case (Cons x xs)
  show ?case
  proof (cases "x = c")
    case True
    then have "x \<noteq> c'" using Cons.prems(4) by simp
    then show ?thesis using True by simp
  next
    case False
    then have c: "c \<in> set xs" using Cons.prems(2) by simp
    have "x \<le> c" using Cons.prems(1,2) by auto
    then have "x < c'" using Cons.prems(4) by simp
    then have c': "c' \<in> set xs" "x \<noteq> c'" using Cons.prems(3) by auto
    have "sorted xs" using Cons.prems(1) by simp
    from Cons.IH[OF this c c'(1) Cons.prems(4)] show ?thesis using False c'(2) by simp
  qed
qed

lemma cumulative_strict:
  "i < j \<Longrightarrow> j < n \<Longrightarrow> cumulative n ! i < cumulative n ! j"
  by (simp add: cumulative_def divide_strict_right_mono del: upt_Suc)

lemma unique_points_unfold:
  "unique_points rps =
     zip (map real (remdups_adj (sort rps)))
         (map (\<lambda>c. cumulative (length rps) ! first_index (sort rps) c) (remdups_adj (sort rps)))"
  by (simp add: unique_points_def np_unique_def Let_def comp_def sorted_sort_id)

lemma unique_points_strict:
  "sorted_wrt (<) (map fst (unique_points rps))" "sorted_wrt (<) (map snd (unique_points rps))"
proof -
  define s where "s = sort rps"
  define u where "u = remdups_adj s"
  have ss: "sorted s" unfolding s_def by simp
  have su: "sorted_wrt (<) u" unfolding u_def by (rule strict_sorted_remdups_adj[OF ss])
  have f: "map fst (unique_points rps) = map real u"
    unfolding unique_points_unfold u_def s_def by simp
  have g: "map snd (unique_points rps) = map (\<lambda>c. cumulative (length rps) ! first_index s c) u"
    unfolding unique_points_unfold u_def s_def by simp
  show "sorted_wrt (<) (map fst (unique_points rps))"
    unfolding f sorted_wrt_map using su by (rule sorted_wrt_mono_rel[rotated]) simp
  have mono: "cumulative (length rps) ! first_index s c < cumulative (length rps) ! first_index s c'"
    if "c \<in> set u" "c' \<in> set u" "c < c'" for c c'
  proof -
    have m: "c \<in> set s" "c' \<in> set s" using that unfolding u_def by simp_all
    have "first_index s c < first_index s c'" by (rule first_index_mono[OF ss m that(3)])
    moreover have "first_index s c' < length rps"
      using first_index_less[OF m(2)] unfolding s_def by simp
    ultimately show ?thesis by (rule cumulative_strict)
  qed
  show "sorted_wrt (<) (map snd (unique_points rps))"
    unfolding g sorted_wrt_map using su by (rule sorted_wrt_mono_rel[rotated]) (rule mono)
qed

text \<open>
  The deduplicated point of a count \<open>c\<close> carries the cumulative fraction of the first
  (smallest) index at which \<open>c\<close> stands in the sorted series.
\<close>

lemma first_index_least:
  "i < length xs \<Longrightarrow> xs ! i = c \<Longrightarrow> first_index xs c \<le> i"
proof (induction xs arbitrary: i)
  case Nil
  then show ?case by simp
next
  case (Cons x xs)
  then show ?case by (cases i) auto
qed

lemma first_index_nth: "c \<in> set xs \<Longrightarrow> xs ! first_index xs c = c"
  by (induction xs) auto

lemma unique_points_first_index:
  assumes "c \<in> set rps"
  shows "(real c, real (first_index (sort rps) c + 1) / real (length rps)) \<in> set (unique_points rps)"
proof -
  have m: "unique_points rps =
     map (\<lambda>c. (real c, cumulative (length rps) ! first_index (sort rps) c)) (remdups_adj (sort rps))"
    unfolding unique_points_unfold by (simp add: zip_map_map zip_same_conv_map)
  have c: "c \<in> set (sort rps)" using assms by simp
  have "first_index (sort rps) c < length rps" using first_index_less[OF c] by simp
  then have "cumulative (length rps) ! first_index (sort rps) c
             = real (first_index (sort rps) c + 1) / real (length rps)"
    by (rule nth_cumulative)
  moreover have "c \<in> set (remdups_adj (sort rps))" using assms by simp
  ultimately show ?thesis unfolding m by force
qed

text \<open>
  C2 says that deduplication keeps, for each count \<open>c\<close>, the pair \<open>(c, (j + 1) / n)\<close> with
  \<open>j\<close> the largest index of \<open>c\<close> in the sorted series. \<open>np.unique(..., return_index=True)\<close>
  returns the index of the first occurrence, so the code keeps the smallest cumulative
  fraction of each group: for the counts \<open>[5 (9 times), 15]\<close> the pair for 5 is
  \<open>(5, 1/10)\<close>, where the claim (and the fraction of counts at most 5) gives \<open>9/10\<close>.
\<close>

theorem unique_points_first_occurrence:
  "unique_points [5,5,5,5,5,5,5,5,5,15] = [(5, 1/10), (15, 1)]"
proof -
  have s: "sort [5,5,5,5,5,5,5,5,5,15::nat] = [5,5,5,5,5,5,5,5,5,15]" by simp
  have u: "np_unique [5,5,5,5,5,5,5,5,5,15] = ([5, 15], [0, 9])"
    by (simp add: np_unique_def s)
  have c: "cumulative 10 = [1/10, 2/10, 3/10, 4/10, 5/10, 6/10, 7/10, 8/10, 9/10, 10/10]"
    by (simp add: cumulative_def upt_rec)
  have l: "length [5,5,5,5,5,5,5,5,5,15::nat] = 10" by simp
  show ?thesis unfolding unique_points_def s Let_def u l c by simp
qed

subsection \<open>Interpolate method\<close>

lemma find_pivot_Some:
  assumes "find_pivot rows = Some (p, others)"
  shows "p \<noteq> [] \<and> hd p \<noteq> 0 \<and> set rows = insert p (set others) \<and> length rows = Suc (length others)"
  using assms
  by (induction rows arbitrary: p others rule: find_pivot.induct)
     (auto split: if_splits option.splits)

lemma dot_Cons: "dot (x # xs) (y # ys) = x * y + dot xs ys"
  by (simp add: dot_def)

lemma dot_eliminate:
  assumes "length as = length bs" and "length bs = length zs"
  shows "dot (map2 (\<lambda>a b. b - c * a) as bs) zs = dot bs zs - c * dot as zs"
  using assms
proof (induction as bs zs rule: list_induct3)
  case Nil
  then show ?case by (simp add: dot_def)
next
  case (Cons a as b bs z zs)
  then show ?case by (simp add: dot_Cons algebra_simps)
qed

lemma dot_scale:
  "dot (map (\<lambda>v. v / c) as) zs = dot as zs / c"
proof (induction as arbitrary: zs)
  case Nil
  then show ?case by (simp add: dot_def)
next
  case (Cons a as)
  then show ?case by (cases zs) (simp_all add: dot_def add_divide_distrib)
qed

lemma butlast_map2:
  "length as = length bs \<Longrightarrow> butlast (map2 f as bs) = map2 f (butlast as) (butlast bs)"
  by (induction as bs rule: list_induct2) auto

lemma last_map2:
  "length as = length bs \<Longrightarrow> as \<noteq> [] \<Longrightarrow> last (map2 f as bs) = f (last as) (last bs)"
  by (induction as bs rule: list_induct2) auto

lemma gauss_solve_sound:
  assumes "gauss_solve rows = Some sol" and "\<forall>r \<in> set rows. length r = Suc (length rows)"
  shows "length sol = length rows \<and> (\<forall>r \<in> set rows. dot (butlast r) sol = last r)"
  using assms
proof (induction rows arbitrary: sol rule: gauss_solve.induct)
  case 1
  then show ?case by simp
next
  case (2 r rs)
  define rows where "rows = r # rs"
  from "2.prems"(1) obtain p others where fp: "find_pivot rows = Some (p, others)"
    unfolding rows_def by (auto split: option.splits)
  define pr where "pr = map (\<lambda>v. v / hd p) p"
  from "2.prems"(1) fp obtain sol' where
    s': "gauss_solve (map (eliminate pr) others) = Some sol'"
    and sol: "sol = (last pr - sum_list (map2 (*) (butlast (tl pr)) sol')) # sol'"
    unfolding rows_def pr_def by (auto simp: Let_def split: option.splits)
  note P = find_pivot_Some[OF fp]
  have len: "\<And>q. q \<in> set rows \<Longrightarrow> length q = Suc (length rows)"
    using "2.prems"(2) unfolding rows_def by blast
  have lr: "length rows = Suc (length others)" using P by simp
  have pin: "p \<in> set rows" using P by blast
  have oin: "\<And>q. q \<in> set others \<Longrightarrow> q \<in> set rows" using P by blast
  have lp: "length p = Suc (Suc (length others))" using len[OF pin] lr by simp
  have lpr: "length pr = Suc (Suc (length others))" unfolding pr_def using lp by simp
  have le: "\<forall>q \<in> set (map (eliminate pr) others). length q = Suc (length (map (eliminate pr) others))"
  proof
    fix q assume "q \<in> set (map (eliminate pr) others)"
    then obtain q' where q': "q' \<in> set others" "q = eliminate pr q'" by auto
    have "length q' = Suc (Suc (length others))" using len[OF oin[OF q'(1)]] lr by simp
    then show "length q = Suc (length (map (eliminate pr) others))"
      unfolding q'(2) eliminate_def using lpr by simp
  qed
  have IH: "length sol' = length others \<and>
            (\<forall>q \<in> set (map (eliminate pr) others). dot (butlast q) sol' = last q)"
    using "2.IH"[OF fp[unfolded rows_def] refl pr_def s' le] by simp
  define D where "D = dot (butlast (tl pr)) sol'"
  have x1: "sol = (last pr - D) # sol'" unfolding sol D_def dot_def ..
  have row: "dot (butlast q) sol = hd q * (last pr - D) + dot (butlast (tl q)) sol'"
    if "length q = Suc (Suc (length others))" for q
  proof -
    from that obtain a q1 where q0: "q = a # q1" by (cases q) auto
    with that have q1: "q1 \<noteq> []" by auto
    note q = q0 q1
    show ?thesis unfolding x1 q by (simp add: q(2) dot_Cons)
  qed
  have hp: "hd p \<noteq> 0" using P by blast
  have "dot (butlast p) sol = last p"
  proof -
    have tl: "tl pr = map (\<lambda>v. v / hd p) (tl p)" unfolding pr_def by (simp add: map_tl)
    have "butlast (tl pr) = map (\<lambda>v. v / hd p) (butlast (tl p))"
      unfolding tl by (simp add: map_butlast)
    then have D: "D = dot (butlast (tl p)) sol' / hd p" unfolding D_def by (simp add: dot_scale)
    have "p \<noteq> []" using P by blast
    then have lastpr: "last pr = last p / hd p" unfolding pr_def by (simp add: last_map)
    show ?thesis unfolding row[OF lp] D lastpr using hp by (simp add: field_simps)
  qed
  moreover have "dot (butlast q) sol = last q" if q: "q \<in> set others" for q
  proof -
    have lq: "length q = Suc (Suc (length others))" using len[OF oin[OF q]] lr by simp
    have l1: "length (tl pr) = length (tl q)" using lpr lq by simp
    have ne: "tl pr \<noteq> []" using lpr by (cases pr) auto
    have "eliminate pr q \<in> set (map (eliminate pr) others)" using q by simp
    then have e: "dot (butlast (eliminate pr q)) sol' = last (eliminate pr q)" using IH by blast
    have b: "butlast (eliminate pr q) = map2 (\<lambda>a b. b - hd q * a) (butlast (tl pr)) (butlast (tl q))"
      unfolding eliminate_def by (rule butlast_map2[OF l1])
    have l: "last (eliminate pr q) = last (tl q) - hd q * last (tl pr)"
      unfolding eliminate_def by (rule last_map2[OF l1 ne])
    have l2: "length (butlast (tl pr)) = length (butlast (tl q))" using l1 by simp
    have l3: "length (butlast (tl q)) = length sol'" using lq IH by simp
    have "dot (butlast (tl q)) sol' - hd q * D = last (tl q) - hd q * last (tl pr)"
      using e unfolding b l dot_eliminate[OF l2 l3] D_def .
    moreover have "last (tl q) = last q" using lq by (cases q) auto
    moreover have "last (tl pr) = last pr" using lpr by (cases pr) auto
    ultimately show ?thesis unfolding row[OF lq] by (simp add: algebra_simps)
  qed
  ultimately have "\<forall>q \<in> set rows. dot (butlast q) sol = last q" using P by auto
  moreover have "length sol = length rows" unfolding x1 using IH lr by simp
  ultimately show ?case unfolding rows_def by simp
qed

lemma dot_commute: "dot xs ys = dot ys xs"
proof -
  have "map2 (*) xs ys = map2 (*) ys xs" for xs ys :: "real list"
  proof (induction xs arbitrary: ys)
    case Nil
    then show ?case by simp
  next
    case (Cons x xs)
    then show ?case by (cases ys) (simp_all add: mult.commute)
  qed
  then show ?thesis unfolding dot_def by simp
qed

lemma length_spline_basis: "4 \<le> length xs \<Longrightarrow> length (spline_basis xs t) = length xs"
  by (simp add: spline_basis_def)

lemma spline_interpolates:
  assumes c: "make_interp_spline xs ys = Some c" and l: "length ys = length xs" and n: "4 \<le> length xs"
    and i: "i < length xs"
  shows "spline_value xs c (xs ! i) = ys ! i"
proof -
  define rows where "rows = map2 (\<lambda>x y. spline_basis xs x @ [y]) xs ys"
  have lr: "length rows = length xs" unfolding rows_def using l by simp
  have wf: "\<forall>r \<in> set rows. length r = Suc (length rows)"
    unfolding lr unfolding rows_def using n by (auto simp: length_spline_basis dest!: in_set_zipE)
  have g: "gauss_solve rows = Some c" using c unfolding make_interp_spline_def rows_def .
  have ri: "rows ! i = spline_basis xs (xs ! i) @ [ys ! i]"
    unfolding rows_def using i l by simp
  have "rows ! i \<in> set rows" using i lr by simp
  then have "dot (butlast (rows ! i)) c = last (rows ! i)"
    using gauss_solve_sound[OF g wf] by blast
  then have "dot (spline_basis xs (xs ! i)) c = ys ! i" unfolding ri by simp
  then show ?thesis unfolding spline_value_def dot_def[symmetric] by (simp add: dot_commute)
qed

lemma Min_sorted: "sorted_wrt (<) xs \<Longrightarrow> xs \<noteq> [] \<Longrightarrow> Min (set xs) = xs ! 0" for xs :: "real list"
proof -
  assume s: "sorted_wrt (<) xs" and ne: "xs \<noteq> []"
  then obtain x ys where x: "xs = x # ys" by (cases xs) auto
  have "\<forall>y \<in> set ys. x \<le> y" using s unfolding x by auto
  then have "Min (insert x (set ys)) = x" by (intro Min_eqI) auto
  then show ?thesis unfolding x by simp
qed

lemma Max_sorted:
  "sorted_wrt (<) xs \<Longrightarrow> xs \<noteq> [] \<Longrightarrow> Max (set xs) = xs ! (length xs - 1)" for xs :: "real list"
proof -
  assume s: "sorted_wrt (<) xs" and ne: "xs \<noteq> []"
  have "\<forall>y \<in> set xs. y \<le> xs ! (length xs - 1)"
  proof
    fix y assume "y \<in> set xs"
    then obtain j where j: "j < length xs" "y = xs ! j" by (auto simp: in_set_conv_nth)
    show "y \<le> xs ! (length xs - 1)"
    proof (cases "j = length xs - 1")
      case True
      then show ?thesis using j by simp
    next
      case False
      then have "j < length xs - 1" using j by simp
      then have "xs ! j < xs ! (length xs - 1)" using s ne by (simp add: sorted_wrt_nth_less)
      then show ?thesis using j by simp
    qed
  qed
  moreover have "xs ! (length xs - 1) \<in> set xs" using ne by simp
  ultimately show ?thesis by (intro Max_eqI) auto
qed

lemma sorted_linspace: "a \<le> b \<Longrightarrow> sorted (linspace a b num)"
proof -
  assume ab: "a \<le> b"
  have "sorted (map (\<lambda>i. a + real i * ((b - a) / real (num - 1))) [0..<num])"
    unfolding sorted_map
  proof (rule sorted_wrt_mono_rel[of _ "(\<le>)"])
    show "sorted_wrt (\<le>) [0..<num]" by simp
    fix i j :: nat assume "i \<le> j"
    then have "real i * ((b - a) / real (num - 1)) \<le> real j * ((b - a) / real (num - 1))"
      using ab by (intro mult_right_mono) simp_all
    then show "a + real i * ((b - a) / real (num - 1)) \<le> a + real j * ((b - a) / real (num - 1))"
      by simp
  qed
  then show ?thesis by (simp add: linspace_def)
qed

lemma linspace_ends:
  assumes "2 \<le> num"
  shows "linspace a b num ! 0 = a" and "linspace a b num ! (num - 1) = b"
proof -
  have n1: "num \<noteq> 1" using assms by simp
  show "linspace a b num ! 0 = a" using assms by (simp add: linspace_def)
  have "real (num - 1) \<noteq> 0" using assms by simp
  then show "linspace a b num ! (num - 1) = b"
    using assms n1 by (simp add: linspace_def del: of_nat_diff)
qed

lemma interpolate_small:
  "length (unique_points rps) \<le> 4 \<Longrightarrow> interpolate_method rps num_points = Inr (unique_points rps)"
  by (simp add: interpolate_method_def Let_def)

lemma interpolate_fit:
  assumes big: "4 < length (unique_points rps)"
    and r: "interpolate_method rps num_points = Inr smooth"
  shows "\<exists>c. make_interp_spline (map fst (unique_points rps)) (map snd (unique_points rps)) = Some c \<and>
           smooth = map (\<lambda>x. (x, interp1d_cubic (map fst (unique_points rps)) c x))
                      (linspace (fst (hd (unique_points rps))) (fst (last (unique_points rps))) num_points) \<and>
           (\<forall>(x, y) \<in> set (unique_points rps). interp1d_cubic (map fst (unique_points rps)) c x = y)"
proof -
  define pts where "pts = unique_points rps"
  define ux where "ux = map fst pts"
  define uy where "uy = map snd pts"
  have n: "4 < length ux" using big unfolding ux_def pts_def by simp
  have ne: "ux \<noteq> []" "pts \<noteq> []" using n unfolding ux_def by auto
  have sx: "sorted_wrt (<) ux" unfolding ux_def pts_def by (rule unique_points_strict(1))
  from r n obtain c where c: "make_interp_spline ux uy = Some c"
    and sm: "smooth = zip (linspace (Min (set ux)) (Max (set ux)) num_points)
                        (map (interp1d_cubic ux c) (linspace (Min (set ux)) (Max (set ux)) num_points))"
    unfolding interpolate_method_def Let_def pts_def[symmetric] ux_def[symmetric] uy_def[symmetric]
    by (auto split: option.splits)
  have mn: "Min (set ux) = fst (hd pts)"
    unfolding Min_sorted[OF sx ne(1)] unfolding ux_def using ne(2) by (simp add: hd_conv_nth)
  have mx: "Max (set ux) = fst (last pts)"
    unfolding Max_sorted[OF sx ne(1)] unfolding ux_def using ne(2) by (simp add: last_conv_nth)
  have z: "zip xs (map f xs) = map (\<lambda>x. (x, f x)) xs" for f :: "real \<Rightarrow> real" and xs
    by (induction xs) simp_all
  have s1: "smooth = map (\<lambda>x. (x, interp1d_cubic ux c x)) (linspace (fst (hd pts)) (fst (last pts)) num_points)"
    unfolding sm mn mx by (rule z)
  have through: "\<forall>(x, y) \<in> set pts. interp1d_cubic ux c x = y"
  proof (clarify)
    fix x y assume "(x, y) \<in> set pts"
    then obtain i where i: "i < length pts" "pts ! i = (x, y)" by (auto simp: in_set_conv_nth)
    have ix: "i < length ux" using i unfolding ux_def by simp
    have x: "ux ! i = x" and y: "uy ! i = y" using i unfolding ux_def uy_def by simp_all
    have lo: "ux ! 0 \<le> x"
    proof (cases "i = 0")
      case True then show ?thesis using x by simp
    next
      case False
      then have "ux ! 0 < ux ! i" using sx ix by (simp add: sorted_wrt_nth_less)
      then show ?thesis using x by simp
    qed
    have hi: "x \<le> ux ! (length ux - 1)"
    proof (cases "i = length ux - 1")
      case True then show ?thesis using x by simp
    next
      case False
      then have "i < length ux - 1" using ix by simp
      then have "ux ! i < ux ! (length ux - 1)" using sx ne by (simp add: sorted_wrt_nth_less)
      then show ?thesis using x by simp
    qed
    have "spline_value ux c (ux ! i) = uy ! i"
      by (rule spline_interpolates[OF c _ _ ix]) (use n in \<open>simp_all add: ux_def uy_def\<close>)
    then show "interp1d_cubic ux c x = y"
      unfolding interp1d_cubic_def using lo hi x y by simp
  qed
  show ?thesis using c s1 through unfolding ux_def uy_def pts_def by blast
qed

lemma unique_points_example:
  "unique_points [1, 2, 3, 4, 7] = [(1, 1/5), (2, 2/5), (3, 3/5), (4, 4/5), (7, 1)]"
proof -
  have s: "sort [1, 2, 3, 4, 7::nat] = [1, 2, 3, 4, 7]" by simp
  have u: "np_unique [1, 2, 3, 4, 7] = ([1, 2, 3, 4, 7], [0, 1, 2, 3, 4])"
    by (simp add: np_unique_def s)
  have c: "cumulative 5 = [1/5, 2/5, 3/5, 4/5, 5/5]"
    by (simp add: cumulative_def upt_rec)
  have l: "length [1, 2, 3, 4, 7::nat] = 5" by simp
  show ?thesis unfolding unique_points_def s Let_def u l c by simp
qed

lemma unique_points_small_example:
  "unique_points [5, 5, 15] = [(5, 1/3), (15, 1)]"
proof -
  have s: "sort [5, 5, 15::nat] = [5, 5, 15]" by simp
  have u: "np_unique [5, 5, 15] = ([5, 15], [0, 2])"
    by (simp add: np_unique_def s)
  have c: "cumulative 3 = [1/3, 2/3, 3/3]"
    by (simp add: cumulative_def upt_rec)
  have l: "length [5, 5, 15::nat] = 3" by simp
  show ?thesis unfolding unique_points_def s Let_def u l c by simp
qed

lemma interpolate_example:
  "interpolate_method [1, 2, 3, 4, 7] 7 =
     Inr [(1, 1/5), (2, 2/5), (3, 3/5), (4, 4/5), (5, 53/55), (6, 23/22), (7, 1)]"
proof -
  have sb: "spline_basis [1, 2, 3, 4, 7] t =
              [1, t - 1, (t - 1)\<^sup>2, (t - 1) ^ 3, if 3 < t then (t - 3) ^ 3 else 0]" for t
    by (simp add: spline_basis_def upt_rec)
  have ms: "make_interp_spline [1, 2, 3, 4, 7] [1/5, 2/5, 3/5, 4/5, 1] =
              Some [1/5, 67/330, - (1/220), 1/660, - (1/110)]"
    by (simp add: make_interp_spline_def sb eliminate_def)
  have ls: "linspace 1 7 7 = [1, 2, 3, 4, 5, 6, 7]"
    by (simp add: linspace_def upt_rec)
  have ev: "interp1d_cubic [1, 2, 3, 4, 7] [1/5, 67/330, - (1/220), 1/660, - (1/110)] 1 = 1/5"
    "interp1d_cubic [1, 2, 3, 4, 7] [1/5, 67/330, - (1/220), 1/660, - (1/110)] 2 = 2/5"
    "interp1d_cubic [1, 2, 3, 4, 7] [1/5, 67/330, - (1/220), 1/660, - (1/110)] 3 = 3/5"
    "interp1d_cubic [1, 2, 3, 4, 7] [1/5, 67/330, - (1/220), 1/660, - (1/110)] 4 = 4/5"
    "interp1d_cubic [1, 2, 3, 4, 7] [1/5, 67/330, - (1/220), 1/660, - (1/110)] 5 = 53/55"
    "interp1d_cubic [1, 2, 3, 4, 7] [1/5, 67/330, - (1/220), 1/660, - (1/110)] 6 = 23/22"
    "interp1d_cubic [1, 2, 3, 4, 7] [1/5, 67/330, - (1/220), 1/660, - (1/110)] 7 = 1"
    by (simp_all add: interp1d_cubic_def spline_value_def sb power2_eq_square power3_eq_cube)
  show ?thesis
    unfolding interpolate_method_def unique_points_example Let_def by (simp add: ms ls ev)
qed


text \<open>
  C1 as stated fails on the code: the cubic fit is an interpolating spline, not a
  monotone one. For the counts \<open>[1, 2, 3, 4, 7]\<close> (five unique values) and 7 points the
  output is \<open>y = 23/22 > 1\<close> at \<open>x = 6\<close> and \<open>y = 1\<close> at \<open>x = 7\<close>.
\<close>

theorem interpolated_cdf_counterexample:
  "length (unique_points [1, 2, 3, 4, 7]) = 5 \<and>
   interpolate_method [1, 2, 3, 4, 7] 7 =
     Inr [(1, 1/5), (2, 2/5), (3, 3/5), (4, 4/5), (5, 53/55), (6, 23/22), (7, 1)] \<and>
   (6::real) < 7 \<and> (23/22 :: real) > 1"
  unfolding unique_points_example interpolate_example by simp

text \<open>
  C1, amended. The deduplicated (count, cumulative) points are strictly increasing in
  \<open>x\<close> and in \<open>y\<close>, and they are the output of the Interpolate method when there are at
  most 4 of them. With at least 5, an output series consists of \<open>num_points\<close> points at
  evenly spaced, non-decreasing x-values from the smallest to the largest count, on the
  cubic fit, which passes through every deduplicated point; from 2 points on, the first
  and the last output points are the first and the last deduplicated points. Between
  them \<open>y\<close> need not be monotone.
\<close>

theorem interpolated_cdf_amended:
  "sorted_wrt (<) (map fst (unique_points rps)) \<and>
   sorted_wrt (<) (map snd (unique_points rps)) \<and>
   (length (unique_points rps) \<le> 4 \<longrightarrow>
      interpolate_method rps num_points = Inr (unique_points rps)) \<and>
   (4 < length (unique_points rps) \<longrightarrow>
      (\<forall>smooth. interpolate_method rps num_points = Inr smooth \<longrightarrow>
         (\<exists>c. make_interp_spline (map fst (unique_points rps)) (map snd (unique_points rps)) = Some c \<and>
              smooth = map (\<lambda>x. (x, interp1d_cubic (map fst (unique_points rps)) c x))
                         (linspace (fst (hd (unique_points rps))) (fst (last (unique_points rps))) num_points) \<and>
              (\<forall>(x, y) \<in> set (unique_points rps). interp1d_cubic (map fst (unique_points rps)) c x = y)) \<and>
         length smooth = num_points \<and>
         sorted (map fst smooth) \<and>
         (2 \<le> num_points \<longrightarrow>
            hd smooth = hd (unique_points rps) \<and> last smooth = last (unique_points rps))))"
proof (intro conjI impI allI)
  show "sorted_wrt (<) (map fst (unique_points rps))" by (rule unique_points_strict(1))
  show "sorted_wrt (<) (map snd (unique_points rps))" by (rule unique_points_strict(2))
  show "interpolate_method rps num_points = Inr (unique_points rps)"
    if "length (unique_points rps) \<le> 4" using that by (rule interpolate_small)
next
  fix smooth
  assume big: "4 < length (unique_points rps)"
    and r: "interpolate_method rps num_points = Inr smooth"
  define pts where "pts = unique_points rps"
  define a where "a = fst (hd pts)"
  define b where "b = fst (last pts)"
  from interpolate_fit[OF big r] obtain c where
    c: "make_interp_spline (map fst pts) (map snd pts) = Some c"
    and sm: "smooth = map (\<lambda>x. (x, interp1d_cubic (map fst pts) c x)) (linspace a b num_points)"
    and th: "\<forall>(x, y) \<in> set pts. interp1d_cubic (map fst pts) c x = y"
    unfolding pts_def a_def b_def by blast
  show "\<exists>c. make_interp_spline (map fst (unique_points rps)) (map snd (unique_points rps)) = Some c \<and>
              smooth = map (\<lambda>x. (x, interp1d_cubic (map fst (unique_points rps)) c x))
                         (linspace (fst (hd (unique_points rps))) (fst (last (unique_points rps))) num_points) \<and>
              (\<forall>(x, y) \<in> set (unique_points rps). interp1d_cubic (map fst (unique_points rps)) c x = y)"
    by (rule interpolate_fit[OF big r])
  show "length smooth = num_points" unfolding sm by (simp add: length_linspace)
  have ne: "pts \<noteq> []" using big unfolding pts_def by auto
  have sx: "sorted_wrt (<) (map fst pts)" unfolding pts_def by (rule unique_points_strict(1))
  have ab: "a \<le> b"
  proof -
    have lp: "4 < length pts" using big unfolding pts_def .
    have i: "0 < length pts - 1" and j: "length pts - 1 < length (map fst pts)" using lp by simp_all
    have lt: "map fst pts ! 0 < map fst pts ! (length pts - 1)"
      by (rule sorted_wrt_nth_less[OF sx i j])
    have a': "map fst pts ! 0 = a" unfolding a_def using ne by (simp add: hd_conv_nth)
    have b': "map fst pts ! (length pts - 1) = b"
      unfolding b_def using ne lp by (simp add: last_conv_nth)
    show ?thesis using lt unfolding a' b' by simp
  qed
  have f: "map fst smooth = linspace a b num_points" unfolding sm by (simp add: comp_def)
  show "sorted (map fst smooth)" unfolding f by (rule sorted_linspace[OF ab])
  show "hd smooth = hd (unique_points rps)" if np: "2 \<le> num_points"
  proof -
    have l: "linspace a b num_points \<noteq> []" using np length_linspace[of a b num_points] by auto
    have "hd (linspace a b num_points) = a"
      using linspace_ends(1)[OF np, of a b] l by (simp add: hd_conv_nth)
    then have "hd smooth = (a, interp1d_cubic (map fst pts) c a)" unfolding sm using l by (simp add: hd_map)
    moreover have "interp1d_cubic (map fst pts) c a = snd (hd pts)"
      using th ne unfolding a_def by (auto simp: case_prod_unfold)
    ultimately show ?thesis unfolding a_def pts_def by simp
  qed
  show "last smooth = last (unique_points rps)" if np: "2 \<le> num_points"
  proof -
    have l: "linspace a b num_points \<noteq> []" using np length_linspace[of a b num_points] by auto
    have "last (linspace a b num_points) = b"
      using linspace_ends(2)[OF np, of a b] l by (simp add: last_conv_nth length_linspace)
    then have "last smooth = (b, interp1d_cubic (map fst pts) c b)" unfolding sm using l by (simp add: last_map)
    moreover have "interp1d_cubic (map fst pts) c b = snd (last pts)"
      using th ne unfolding b_def by (auto simp: case_prod_unfold)
    ultimately show ?thesis unfolding b_def pts_def by simp
  qed
qed

theorem interpolated_cdf_amended_witness:
  "sorted_wrt (<) (map fst (unique_points [1, 2, 3, 4, 7])) \<and>
   sorted_wrt (<) (map snd (unique_points [1, 2, 3, 4, 7])) \<and>
   length (unique_points [5, 5, 15]) \<le> 4 \<and>
   interpolate_method [5, 5, 15] 7 = Inr (unique_points [5, 5, 15]) \<and>
   4 < length (unique_points [1, 2, 3, 4, 7]) \<and>
   interpolate_method [1, 2, 3, 4, 7] 7 =
     Inr [(1, 1/5), (2, 2/5), (3, 3/5), (4, 4/5), (5, 53/55), (6, 23/22), (7, 1)] \<and>
   (\<exists>c. make_interp_spline (map fst (unique_points [1, 2, 3, 4, 7])) (map snd (unique_points [1, 2, 3, 4, 7])) = Some c \<and>
        [(1, 1/5), (2, 2/5), (3, 3/5), (4, 4/5), (5, 53/55), (6, 23/22), (7, 1)] =
          map (\<lambda>x. (x, interp1d_cubic (map fst (unique_points [1, 2, 3, 4, 7])) c x))
            (linspace (fst (hd (unique_points [1, 2, 3, 4, 7]))) (fst (last (unique_points [1, 2, 3, 4, 7]))) 7) \<and>
        (\<forall>(x, y) \<in> set (unique_points [1, 2, 3, 4, 7]).
           interp1d_cubic (map fst (unique_points [1, 2, 3, 4, 7])) c x = y)) \<and>
   length ([(1, 1/5), (2, 2/5), (3, 3/5), (4, 4/5), (5, 53/55), (6, 23/22), (7, 1)] :: (real \<times> real) list) = 7 \<and>
   sorted (map fst ([(1, 1/5), (2, 2/5), (3, 3/5), (4, 4/5), (5, 53/55), (6, 23/22), (7, 1)] :: (real \<times> real) list)) \<and>
   (2::nat) \<le> 7 \<and>
   hd [(1, 1/5), (2, 2/5), (3, 3/5), (4, 4/5), (5, 53/55), (6, 23/22), (7, 1)] = hd (unique_points [1, 2, 3, 4, 7]) \<and>
   last [(1, 1/5), (2, 2/5), (3, 3/5), (4, 4/5), (5, 53/55), (6, 23/22), (7, 1)] = last (unique_points [1, 2, 3, 4, 7])"
proof -
  have h1: "length (unique_points [5, 5, 15]) \<le> 4" unfolding unique_points_small_example by simp
  have h2: "4 < length (unique_points [1, 2, 3, 4, 7])" unfolding unique_points_example by simp
  have h3: "(2::nat) \<le> 7" by simp
  note t = interpolated_cdf_amended[of "[1, 2, 3, 4, 7]" 7]
  note u = interpolated_cdf_amended[of "[5, 5, 15]" 7]
  note t4 = mp[OF spec[OF mp[OF conjunct2[OF conjunct2[OF conjunct2[OF t]]] h2]] interpolate_example]
  show ?thesis
    apply (intro conjI)
    apply (rule conjunct1[OF t])
    apply (rule conjunct1[OF conjunct2[OF t]])
    apply (rule h1)
    apply (rule mp[OF conjunct1[OF conjunct2[OF conjunct2[OF u]]] h1])
    apply (rule h2)
    apply (rule interpolate_example)
    apply (rule conjunct1[OF t4])
    apply (rule conjunct1[OF conjunct2[OF t4]])
    apply (rule conjunct1[OF conjunct2[OF conjunct2[OF t4]]])
    apply (rule h3)
    apply (rule conjunct1[OF mp[OF conjunct2[OF conjunct2[OF conjunct2[OF t4]]] h3]])
    apply (rule conjunct2[OF mp[OF conjunct2[OF conjunct2[OF conjunct2[OF t4]]] h3]])
    done
qed

section \<open>Plotting entry points: the empty selection\<close>

text \<open>
  Three entry points test the filtered table and stop with a diagnostic and no image
  when no row has the target metric.
\<close>

lemma empty_result_siblings:
  assumes "filter_metric ''http_reqs'' df = []" and "filter_metric ''http_req_duration'' df' = []"
  shows "plot_rps_cdf_smooth df m sf np =
           Inr \<lparr> printed = [Loading, UsingSmoothing, NoData ''No HTTP requests data found!''], image = None \<rparr>"
    and "plot_request_times df' =
           \<lparr> printed = [Loading, NoData ''No HTTP request duration data found!''], image = None \<rparr>"
    and "plot_request_times_smooth df' lm w f =
           Inr \<lparr> printed = [Loading, UsingSmoothing, NoData ''No HTTP request duration data found!''], image = None \<rparr>"
  using assms
  by (simp_all add: plot_rps_cdf_smooth_def plot_request_times_def plot_request_times_smooth_def)

text \<open>
  \<open>plot_rps_cdf.py\<close> has no such test: whatever the table, it saves an image and prints
  only the line reporting the saved plot.
\<close>

lemma plot_rps_cdf_main_always_saves:
  "image (plot_rps_cdf_main df) \<noteq> None \<and> printed (plot_rps_cdf_main df) = [PlotSaved]"
  by (simp add: plot_rps_cdf_main_def Let_def)

text \<open>
  C5 says that every plotting entry point, on a table with no row of the target metric,
  reports a diagnostic and produces no image. On the table with a single
  \<open>http_req_duration\<close> row, no row matches \<open>http_reqs\<close>, and \<open>plot_rps_cdf.py\<close> saves an
  image with an empty curve and prints no diagnostic.
\<close>

theorem plot_rps_cdf_empty_result:
  "filter_metric ''http_reqs''
     [\<lparr> timestamp = 0, metric_name = ''http_req_duration'', metric_value = 12 \<rparr>] = [] \<and>
   plot_rps_cdf_main [\<lparr> timestamp = 0, metric_name = ''http_req_duration'', metric_value = 12 \<rparr>] =
     \<lparr> printed = [PlotSaved], image = Some \<lparr> curve = [], reference_lines = [] \<rparr> \<rparr>"
  by (simp add: plot_rps_cdf_main_def filter_metric_def per_second_counts_def cumulative_def)

end
